theory Spec2Isabelle
  imports Main "HOL-Library.Word"
begin

unbundle bit_operations_syntax

section \<open>Heat diffusion on a square grid of threads (apps/heat/heat.c)\<close>

text \<open>
  The program is one C function, \<^verbatim>\<open>main\<close>, run by every thread of a board.  The
  embedding follows its text block by block.

  \<^item> \<^verbatim>\<open>int\<close> and \<^verbatim>\<open>uint32_t\<close> are 32-bit words: \<open>+\<close> and \<open>-\<close> wrap, \<^verbatim>\<open>>>\<close> on an
    \<^verbatim>\<open>int\<close> is the arithmetic shift \<open>signed_drop_bit\<close>, on a \<^verbatim>\<open>uint32_t\<close> it is
    \<open>drop_bit\<close>, and \<^verbatim>\<open><<\<close> is \<open>push_bit\<close>.
  \<^item> Loop counters (\<^verbatim>\<open>i\<close>, \<^verbatim>\<open>j\<close>, \<^verbatim>\<open>x\<close>, \<^verbatim>\<open>y\<close>, \<^verbatim>\<open>t\<close>, \<^verbatim>\<open>edgesSent\<close>,
    \<^verbatim>\<open>edgesReceived\<close>) only count upwards from 0 within small bounds; they are
    natural numbers, converted with \<open>of_nat\<close> where the code computes with them.
  \<^item> The constants \<^verbatim>\<open>TinselLogThreadsPerBoard\<close> and \<^verbatim>\<open>TinselLogWordsPerMsg\<close> come from
    \<^verbatim>\<open>tinsel.h\<close>; they are the two fields of a configuration record that every
    definition takes as a parameter.
  \<^item> A \<^verbatim>\<open>volatile int*\<close> into the mailbox (a message slot) is modelled by the words the
    slot holds, a list with the tag word at index 0; the null pointer of
    \<^verbatim>\<open>edgeInBuffer\<close> is \<open>None\<close>.  The mailbox never writes to a slot the thread holds, so
    \<^verbatim>\<open>tinselAlloc\<close> (which hands a slot back) changes nothing in the model.
\<close>

type_synonym word32 = "32 word"

subsection \<open>Directions\<close>

text \<open>\<^verbatim>\<open>typedef enum {N=0, S=1, E=2, W=3} Dir;\<close>\<close>

datatype Dir = N | S | E | W

fun dir_val :: "Dir \<Rightarrow> word32" where
  "dir_val N = 0"
| "dir_val S = 1"
| "dir_val E = 2"
| "dir_val W = 3"

text \<open>
  A word used as an index into one of the four-element arrays: \<open>None\<close> when it is not
  one of the four enumerators (the C code would then index out of bounds).
\<close>

definition dir_of :: "word32 \<Rightarrow> Dir option" where
  "dir_of w =
     (if w = 0 then Some N
      else if w = 1 then Some S
      else if w = 2 then Some E
      else if w = 3 then Some W
      else None)"

fun opposite :: "Dir \<Rightarrow> Dir" where
  "opposite d =
     (if d = N then S
      else if d = S then N
      else if d = E then W
      else E)"

text \<open>\<^verbatim>\<open>#define FixedPoint(x, y) (((x) << 16) | (y))\<close>\<close>

definition FixedPoint :: "word32 \<Rightarrow> word32 \<Rightarrow> word32" where
  "FixedPoint x y = push_bit 16 x OR y"

subsection \<open>Configuration and topology\<close>

record config =
  TinselLogThreadsPerBoard :: nat
  TinselLogWordsPerMsg :: nat

definition logLen :: "config \<Rightarrow> nat" where
  "logLen c = drop_bit 1 (TinselLogThreadsPerBoard c)"

definition len :: "config \<Rightarrow> word32" where
  "len c = push_bit (logLen c) 1"

definition xPos :: "config \<Rightarrow> word32 \<Rightarrow> word32" where
  "xPos c me = me AND (len c - 1)"

definition yPos :: "config \<Rightarrow> word32 \<Rightarrow> word32" where
  "yPos c me = drop_bit (logLen c) me"

text \<open>The array \<^verbatim>\<open>neighbour[4]\<close>; \<open>- 1\<close> denotes no such thread.\<close>

fun neighbour :: "config \<Rightarrow> word32 \<Rightarrow> Dir \<Rightarrow> word32" where
  "neighbour c me N =
     (if yPos c me = 0 then - 1
      else push_bit (logLen c) (yPos c me - 1) OR xPos c me)"
| "neighbour c me S =
     (if yPos c me = len c - 1 then - 1
      else push_bit (logLen c) (yPos c me + 1) OR xPos c me)"
| "neighbour c me E =
     (if xPos c me = len c - 1 then - 1
      else push_bit (logLen c) (yPos c me) OR (xPos c me + 1))"
| "neighbour c me W =
     (if xPos c me = 0 then - 1
      else push_bit (logLen c) (yPos c me) OR (xPos c me - 1))"

text \<open>
  \<^verbatim>\<open>neighbourList\<close> holds, in the order N, S, E, W, the directions whose entry of
  \<^verbatim>\<open>neighbour\<close> is non-negative as an \<^verbatim>\<open>int\<close>; \<^verbatim>\<open>numNeighbours\<close> is its length.
\<close>

definition neighbourList :: "config \<Rightarrow> word32 \<Rightarrow> Dir list" where
  "neighbourList c me = filter (\<lambda>i. 0 \<le> sint (neighbour c me i)) [N, S, E, W]"

definition numNeighbours :: "config \<Rightarrow> word32 \<Rightarrow> nat" where
  "numNeighbours c me = length (neighbourList c me)"

text \<open>The subgrid length \<^verbatim>\<open>L = (1 << TinselLogWordsPerMsg) - 1\<close>.\<close>

definition L :: "config \<Rightarrow> nat" where
  "L c = unat ((push_bit (TinselLogWordsPerMsg c) 1 :: word32) - 1)"

subsection \<open>The tag word of a boundary message\<close>

text \<open>
  The send handler writes \<^verbatim>\<open>(opposite(d) << 1) | (t & 1)\<close> into word 0 of the outgoing
  edge; the receive handler reads the direction as \<^verbatim>\<open>msg[0] >> 1\<close> and the phase as
  \<^verbatim>\<open>msg[0] & 1\<close>.
\<close>

definition phase :: "nat \<Rightarrow> word32" where
  "phase t = of_nat t AND 1"

definition mk_tag :: "Dir \<Rightarrow> nat \<Rightarrow> word32" where
  "mk_tag d t = push_bit 1 (dir_val (opposite d)) OR phase t"

definition tag_dir :: "word32 \<Rightarrow> word32" where
  "tag_dir w = signed_drop_bit 1 w"

definition tag_phase :: "word32 \<Rightarrow> word32" where
  "tag_phase w = w AND 1"

subsection \<open>Local state\<close>

text \<open>
  A message slot holds \<^verbatim>\<open>1 << TinselLogWordsPerMsg\<close> words, that is \<open>L + 1\<close>: the tag at
  index 0 and the \<open>L\<close> temperatures of an edge at indices \<open>1 .. L\<close>.
\<close>

type_synonym msg = "word32 list"

type_synonym grid = "word32 list list"

text \<open>
  The variables of \<^verbatim>\<open>main\<close> that change after start-up.  \<open>subgrid\<close> and \<open>newSubgrid\<close>
  are the arrays the two pointers of that name refer to.  \<open>sent\<close> lists the calls
  \<^verbatim>\<open>tinselSend(dest, msg)\<close> made so far.  \<open>received\<close> is a history variable that the code does
  not have: the messages returned by \<^verbatim>\<open>tinselRecv\<close> so far, each with the time step
  \<^verbatim>\<open>t\<close> at which it was returned.
\<close>

record state =
  subgrid :: grid
  newSubgrid :: grid
  edgeOut :: "Dir \<Rightarrow> msg"
  edgeIn :: "Dir \<Rightarrow> msg"
  edgeInBuffer :: "Dir \<Rightarrow> msg option"
  edgesSent :: nat
  edgesReceived :: nat
  sent :: "(word32 \<times> msg) list"
  received :: "(nat \<times> msg) list"

subsection \<open>Initial state\<close>

text \<open>
  \<^verbatim>\<open>for (int i = 1; i <= L; i++) edge[i] = v;\<close> on one slot.
\<close>

definition fill_edge :: "config \<Rightarrow> word32 \<Rightarrow> msg \<Rightarrow> msg" where
  "fill_edge c v m = fold (\<lambda>i e. e[i := v]) [1..<L c + 1] m"

text \<open>
  The state before the simulation loop.  \<open>slot i\<close> is what \<^verbatim>\<open>tinselSlot(i)\<close> holds when
  the thread starts and \<open>space\<close> is what the stack array \<^verbatim>\<open>newSubgridSpace\<close> holds: the
  code initialises neither.
\<close>

definition initial :: "config \<Rightarrow> word32 \<Rightarrow> (nat \<Rightarrow> msg) \<Rightarrow> grid \<Rightarrow> state" where
  "initial c me slot space =
     (let zeroed = (\<lambda>i. fill_edge c 0 (slot (4 + unat (dir_val i))));
          e1 = (if yPos c me = 0
                then zeroed(N := fill_edge c (FixedPoint 255 0) (zeroed N)) else zeroed);
          e2 = (if xPos c me = 0
                then e1(W := fill_edge c (FixedPoint 255 0) (e1 W)) else e1);
          e3 = (if yPos c me = len c - 1
                then e2(S := fill_edge c (FixedPoint 40 0) (e2 S)) else e2);
          e4 = (if xPos c me = len c - 1
                then e3(E := fill_edge c (FixedPoint 40 0) (e3 E)) else e3)
      in \<lparr>subgrid = replicate (L c) (replicate (L c) 0),
          newSubgrid = space,
          edgeOut = (\<lambda>i. slot (unat (dir_val i))),
          edgeIn = e4,
          edgeInBuffer = (\<lambda>i. None),
          edgesSent = 0,
          edgesReceived = 0,
          sent = [],
          received = []\<rparr>)"

subsection \<open>Update of the subgrid\<close>

text \<open>
  The body of the two nested loops over \<^verbatim>\<open>y\<close> and \<^verbatim>\<open>x\<close>: the four surrounding values,
  their average, the new temperature of the cell.
\<close>

definition surroundings :: "config \<Rightarrow> (Dir \<Rightarrow> msg) \<Rightarrow> grid \<Rightarrow> nat \<Rightarrow> nat \<Rightarrow> word32" where
  "surroundings c ein g y x =
     (let l = (if x = 0 then ein W ! (y + 1) else g ! y ! (x - 1));
          r = (if x = L c - 1 then ein E ! (y + 1) else g ! y ! (x + 1));
          a = (if y = 0 then ein N ! (x + 1) else g ! (y - 1) ! x);
          b = (if y = L c - 1 then ein S ! (x + 1) else g ! (y + 1) ! x)
      in signed_drop_bit 2 (a + b + l + r))"

definition newTemp :: "config \<Rightarrow> (Dir \<Rightarrow> msg) \<Rightarrow> grid \<Rightarrow> nat \<Rightarrow> nat \<Rightarrow> word32" where
  "newTemp c ein g y x = g ! y ! x - (g ! y ! x - surroundings c ein g y x)"

definition set_edge :: "Dir \<Rightarrow> nat \<Rightarrow> word32 \<Rightarrow> state \<Rightarrow> state" where
  "set_edge d i v s = s\<lparr>edgeOut := (edgeOut s)(d := (edgeOut s d)[i := v])\<rparr>"

definition update_cell :: "config \<Rightarrow> nat \<Rightarrow> nat \<Rightarrow> state \<Rightarrow> state" where
  "update_cell c y x s =
     (let v = newTemp c (edgeIn s) (subgrid s) y x;
          s0 = s\<lparr>newSubgrid := (newSubgrid s)[y := (newSubgrid s ! y)[x := v]]\<rparr>;
          s1 = (if y = 0 then set_edge N (x + 1) v s0 else s0);
          s2 = (if y = L c - 1 then set_edge S (x + 1) v s1 else s1);
          s3 = (if x = 0 then set_edge W (y + 1) v s2 else s2);
          s4 = (if x = L c - 1 then set_edge E (y + 1) v s3 else s3)
      in s4)"

definition update_state :: "config \<Rightarrow> state \<Rightarrow> state" where
  "update_state c s = fold (\<lambda>y. fold (\<lambda>x. update_cell c y x) [0..<L c]) [0..<L c] s"

subsection \<open>Exchange of edges\<close>

text \<open>
  \<^verbatim>\<open>if (edgeInBuffer[i] != 0) { edgeIn[i] = edgeInBuffer[i]; edgeInBuffer[i] = 0;
  edgesReceived++; }\<close>
\<close>

definition recognise :: "Dir \<Rightarrow> state \<Rightarrow> state" where
  "recognise i s =
     (case edgeInBuffer s i of
        None \<Rightarrow> s
      | Some m \<Rightarrow>
          s\<lparr>edgeIn := (edgeIn s)(i := m),
            edgeInBuffer := (edgeInBuffer s)(i := None),
            edgesReceived := edgesReceived s + 1\<rparr>)"

text \<open>
  From \<^verbatim>\<open>int edgesSent = 0;\<close> to the end of the loop that recognises buffered edges.
\<close>

definition begin_exchange :: "state \<Rightarrow> state" where
  "begin_exchange s = fold recognise [N, S, E, W] (s\<lparr>edgesSent := 0, edgesReceived := 0\<rparr>)"

definition needToSend :: "config \<Rightarrow> word32 \<Rightarrow> state \<Rightarrow> bool" where
  "needToSend c me s \<longleftrightarrow> edgesSent s < numNeighbours c me"

definition needToRecv :: "config \<Rightarrow> word32 \<Rightarrow> state \<Rightarrow> bool" where
  "needToRecv c me s \<longleftrightarrow> edgesReceived s < numNeighbours c me"

text \<open>The send handler, entered when \<^verbatim>\<open>needToSend && tinselCanSend()\<close>.\<close>

definition send_handler :: "config \<Rightarrow> word32 \<Rightarrow> nat \<Rightarrow> state \<Rightarrow> state" where
  "send_handler c me t s =
     (let d = neighbourList c me ! edgesSent s;
          s1 = s\<lparr>edgeOut := (edgeOut s)(d := (edgeOut s d)[0 := mk_tag d t])\<rparr>;
          s2 = s1\<lparr>sent := sent s1 @ [(neighbour c me d, edgeOut s1 d)]\<rparr>
      in s2\<lparr>edgesSent := edgesSent s2 + 1\<rparr>)"

text \<open>
  What can stop a run: the thread is suspended in \<^verbatim>\<open>tinselWaitUntil\<close> and is never woken
  again, or a received tag names no direction and the code indexes \<^verbatim>\<open>edgeIn\<close> or
  \<^verbatim>\<open>edgeInBuffer\<close> out of bounds.
\<close>

datatype fault = Stalled | BadIndex

text \<open>The receive handler, entered when \<^verbatim>\<open>tinselCanRecv()\<close>, for the message \<open>m\<close> received.\<close>

definition recv_handler :: "nat \<Rightarrow> msg \<Rightarrow> state \<Rightarrow> fault + state" where
  "recv_handler t m s =
     (let s1 = s\<lparr>received := received s @ [(t, m)]\<rparr> in
      case dir_of (tag_dir (m ! 0)) of
        None \<Rightarrow> Inl BadIndex
      | Some d \<Rightarrow>
          if tag_phase (m ! 0) = phase t
          then Inr (s1\<lparr>edgeIn := (edgeIn s1)(d := m), edgesReceived := edgesReceived s1 + 1\<rparr>)
          else Inr (s1\<lparr>edgeInBuffer := (edgeInBuffer s1)(d := Some m)\<rparr>))"

text \<open>
  What the thread finds when \<^verbatim>\<open>tinselWaitUntil\<close> returns: whether \<^verbatim>\<open>tinselCanSend()\<close>
  holds, and the message that \<^verbatim>\<open>tinselRecv()\<close> returns if \<^verbatim>\<open>tinselCanRecv()\<close> holds.  The
  handlers test these conditions themselves, as in the code, whatever the thread waited for.
\<close>

datatype event = CanSend | CanRecv msg | CanSendRecv msg

fun canSend :: "event \<Rightarrow> bool" where
  "canSend CanSend = True"
| "canSend (CanRecv m) = False"
| "canSend (CanSendRecv m) = True"

fun canRecv :: "event \<Rightarrow> msg option" where
  "canRecv CanSend = None"
| "canRecv (CanRecv m) = Some m"
| "canRecv (CanSendRecv m) = Some m"

text \<open>One pass through the body of the \<^verbatim>\<open>for (;;)\<close> loop after the thread is woken.\<close>

definition handle_event :: "config \<Rightarrow> word32 \<Rightarrow> nat \<Rightarrow> event \<Rightarrow> state \<Rightarrow> fault + state" where
  "handle_event c me t ev s =
     (let s1 = (if needToSend c me s \<and> canSend ev then send_handler c me t s else s) in
      case canRecv ev of
        None \<Rightarrow> Inr s1
      | Some m \<Rightarrow> recv_handler t m s1)"

text \<open>
  The \<^verbatim>\<open>for (;;)\<close> loop.  It consumes one event per pass and returns the events it did
  not consume; with no event left it is suspended for ever.
\<close>

fun exchange :: "config \<Rightarrow> word32 \<Rightarrow> nat \<Rightarrow> event list \<Rightarrow> state \<Rightarrow> fault + state \<times> event list" where
  "exchange c me t [] s =
     (if \<not> needToSend c me s \<and> \<not> needToRecv c me s then Inr (s, []) else Inl Stalled)"
| "exchange c me t (ev # evs) s =
     (if \<not> needToSend c me s \<and> \<not> needToRecv c me s then Inr (s, ev # evs)
      else case handle_event c me t ev s of
             Inl f \<Rightarrow> Inl f
           | Inr s' \<Rightarrow> exchange c me t evs s')"

subsection \<open>The simulation loop\<close>

definition switch_buffers :: "state \<Rightarrow> state" where
  "switch_buffers s = s\<lparr>subgrid := newSubgrid s, newSubgrid := subgrid s\<rparr>"

text \<open>
  One pass through the body of \<^verbatim>\<open>for (int t = 0; t < nsteps; t++)\<close>.  The wait
  \<^verbatim>\<open>tinselWaitUntil(TINSEL_CAN_SEND)\<close> at its head and the calls of \<^verbatim>\<open>tinselAlloc\<close> change no
  variable of the thread.
\<close>

definition time_step :: "config \<Rightarrow> word32 \<Rightarrow> nat \<Rightarrow> event list \<Rightarrow> state \<Rightarrow> fault + state \<times> event list" where
  "time_step c me t evs s =
     (case exchange c me t evs (begin_exchange (update_state c s)) of
        Inl f \<Rightarrow> Inl f
      | Inr (s', rest) \<Rightarrow> Inr (switch_buffers s', rest))"

function simulation ::
  "config \<Rightarrow> word32 \<Rightarrow> nat \<Rightarrow> nat \<Rightarrow> event list \<Rightarrow> state \<Rightarrow> fault + state \<times> event list" where
  "simulation c me nsteps t evs s =
     (if t < nsteps
      then case time_step c me t evs s of
             Inl f \<Rightarrow> Inl f
           | Inr (s', rest) \<Rightarrow> simulation c me nsteps (t + 1) rest s'
      else Inr (s, evs))"
  by pat_completeness auto

termination
  by (relation "measure (\<lambda>(c, me, nsteps, t, evs, s). nsteps - t)") auto

declare simulation.simps [simp del]

subsection \<open>Emission of the result\<close>

text \<open>
  \<^verbatim>\<open>int x = (xPos << TinselLogWordsPerMsg) - xPos;\<close> and likewise \<^verbatim>\<open>y\<close>: the global
  coordinates of the subgrid's cell \<open>(0, 0)\<close>.
\<close>

definition xBase :: "config \<Rightarrow> word32 \<Rightarrow> word32" where
  "xBase c me = push_bit (TinselLogWordsPerMsg c) (xPos c me) - xPos c me"

definition yBase :: "config \<Rightarrow> word32 \<Rightarrow> word32" where
  "yBase c me = push_bit (TinselLogWordsPerMsg c) (yPos c me) - yPos c me"

text \<open>The word passed to \<^verbatim>\<open>tinselHostPut\<close> for cell \<open>(i, j)\<close>.\<close>

definition host_word :: "config \<Rightarrow> word32 \<Rightarrow> grid \<Rightarrow> nat \<Rightarrow> nat \<Rightarrow> word32" where
  "host_word c me g i j =
     (let coords = push_bit 12 (yBase c me + of_nat i) OR (xBase c me + of_nat j);
          temp = signed_drop_bit 16 (g ! i ! j) AND 255
      in push_bit 8 coords OR temp)"

text \<open>The two nested loops over \<^verbatim>\<open>i\<close> and \<^verbatim>\<open>j\<close>; the result lists the words in the order sent.\<close>

definition emit :: "config \<Rightarrow> word32 \<Rightarrow> grid \<Rightarrow> word32 list" where
  "emit c me g =
     fold (\<lambda>i out. fold (\<lambda>j out. out @ [host_word c me g i j]) [0..<L c] out) [0..<L c] []"

text \<open>
  \<^verbatim>\<open>main\<close> with \<^verbatim>\<open>nsteps = 1000\<close>: the messages sent and the words put to the host, or
  the fault that stops the thread.
\<close>

definition main :: "config \<Rightarrow> word32 \<Rightarrow> (nat \<Rightarrow> msg) \<Rightarrow> grid \<Rightarrow> event list \<Rightarrow>
    fault + (word32 \<times> msg) list \<times> word32 list" where
  "main c me slot space evs =
     (case simulation c me 1000 0 evs (initial c me slot space) of
        Inl f \<Rightarrow> Inl f
      | Inr (s, rest) \<Rightarrow> Inr (sent s, emit c me (subgrid s)))"

subsection \<open>Notions used to state properties\<close>

text \<open>An array declared \<^verbatim>\<open>int g[L][L]\<close>: \<open>L\<close> rows of \<open>L\<close> words.\<close>

definition grid_ok :: "config \<Rightarrow> grid \<Rightarrow> bool" where
  "grid_ok c g \<longleftrightarrow> length g = L c \<and> list_all (\<lambda>row. length row = L c) g"

text \<open>A message slot: \<open>L + 1\<close> words.\<close>

definition slot_ok :: "config \<Rightarrow> msg \<Rightarrow> bool" where
  "slot_ok c m \<longleftrightarrow> length m = L c + 1"

text \<open>
  The cell of the subgrid whose temperature is word \<open>j + 1\<close> of the edge sent in
  direction \<open>d\<close>, and the \<open>L\<close> temperatures of that edge in a grid \<open>g\<close>.
\<close>

fun edge_cell :: "config \<Rightarrow> Dir \<Rightarrow> nat \<Rightarrow> nat \<times> nat" where
  "edge_cell c N j = (0, j)"
| "edge_cell c S j = (L c - 1, j)"
| "edge_cell c E j = (j, L c - 1)"
| "edge_cell c W j = (j, 0)"

definition edge_of :: "config \<Rightarrow> grid \<Rightarrow> Dir \<Rightarrow> word32 list" where
  "edge_of c g d = map (\<lambda>j. g ! fst (edge_cell c d j) ! snd (edge_cell c d j)) [0..<L c]"

text \<open>
  The global coordinates \<^verbatim>\<open>(y+i, x+j)\<close> that the result word of cell \<open>(i, j)\<close> carries, and
  the set of the coordinates of all cells of a thread.
\<close>

definition cell_coords :: "config \<Rightarrow> word32 \<Rightarrow> nat \<Rightarrow> nat \<Rightarrow> nat \<times> nat" where
  "cell_coords c me i j = (unat (yBase c me + of_nat i), unat (xBase c me + of_nat j))"

definition cells :: "config \<Rightarrow> word32 \<Rightarrow> (nat \<times> nat) set" where
  "cells c me = (\<lambda>(i, j). cell_coords c me i j) ` ({0..<L c} \<times> {0..<L c})"

text \<open>
  The direction that the tag of a message names, the part of a history that came from a
  direction, and the messages of a list of events in their order of arrival.
\<close>

definition msg_dir :: "msg \<Rightarrow> Dir option" where
  "msg_dir m = dir_of (tag_dir (m ! 0))"

definition from_dir :: "Dir \<Rightarrow> (nat \<times> msg) list \<Rightarrow> (nat \<times> msg) list" where
  "from_dir d h = filter (\<lambda>p. msg_dir (snd p) = Some d) h"

definition messages :: "event list \<Rightarrow> msg list" where
  "messages evs = List.map_filter canRecv evs"

definition arrivals :: "Dir \<Rightarrow> event list \<Rightarrow> msg list" where
  "arrivals d evs = filter (\<lambda>m. msg_dir m = Some d) (messages evs)"

text \<open>
  What the exchange takes for granted about the neighbours, stated on the history \<open>h\<close> of the
  messages a thread has received.  Every tag names a direction, and only neighbours send.
  A neighbour sends one edge in each of its steps, tagged with the phase of that step, over a
  channel that keeps the order: the message number \<open>k\<close> (from 0) from a direction carries the
  phase of \<open>k\<close>.  And a neighbour is at most one step ahead: message number \<open>k\<close> is received in a
  step \<open>t\<close> with \<open>k \<le> t + 1\<close>.
\<close>

definition on_time :: "nat \<times> nat \<times> msg \<Rightarrow> bool" where
  "on_time p = (case p of (k, t, m) \<Rightarrow> tag_phase (m ! 0) = phase k \<and> k \<le> t + 1)"

definition bounded_skew :: "config \<Rightarrow> word32 \<Rightarrow> (nat \<times> msg) list \<Rightarrow> bool" where
  "bounded_skew c me h \<longleftrightarrow>
     list_all (\<lambda>p. msg_dir (snd p) \<noteq> None) h
     \<and> list_all (\<lambda>d. (d \<in> set (neighbourList c me) \<or> from_dir d h = [])
                    \<and> list_all on_time (enumerate 0 (from_dir d h))) [N, S, E, W]"

text \<open>
  The states in which a thread started in \<open>s0\<close> can be at the head of the exchange loop, each
  with its time step.
\<close>

inductive reachable :: "config \<Rightarrow> word32 \<Rightarrow> state \<Rightarrow> nat \<Rightarrow> state \<Rightarrow> bool"
  for c :: config and me :: word32 and s0 :: state where
  start: "reachable c me s0 0 (begin_exchange (update_state c s0))"
| pass: "reachable c me s0 t s \<Longrightarrow> needToSend c me s \<or> needToRecv c me s \<Longrightarrow>
         handle_event c me t ev s = Inr s' \<Longrightarrow> reachable c me s0 t s'"
| next_step: "reachable c me s0 t s \<Longrightarrow> \<not> needToSend c me s \<Longrightarrow> \<not> needToRecv c me s \<Longrightarrow>
         reachable c me s0 (Suc t) (begin_exchange (update_state c (switch_buffers s)))"

subsection \<open>Notions used in proofs\<close>

text \<open>
  The state of the exchange in terms of the history, between two steps (\<open>between\<close>) and at the
  head of the exchange loop of step \<open>t\<close> (\<open>in_exchange\<close>): how many messages have come from each
  direction, what the buffer holds, which incoming edges are those of step \<open>t\<close>, and what
  \<open>edgesReceived\<close> counts.
\<close>

definition rcvd :: "Dir \<Rightarrow> state \<Rightarrow> nat" where
  "rcvd d s = length (from_dir d (received s))"

definition chan :: "Dir \<Rightarrow> state \<Rightarrow> msg list" where
  "chan d s = map snd (from_dir d (received s))"

definition between :: "config \<Rightarrow> word32 \<Rightarrow> nat \<Rightarrow> state \<Rightarrow> bool" where
  "between c me t s \<longleftrightarrow>
     (\<forall>d. (if d \<in> set (neighbourList c me) then t \<le> rcvd d s \<and> rcvd d s \<le> t + 1 else rcvd d s = 0)
          \<and> edgeInBuffer s d = (if rcvd d s = t + 1 then Some (chan d s ! t) else None))"

definition in_exchange :: "config \<Rightarrow> word32 \<Rightarrow> nat \<Rightarrow> state \<Rightarrow> bool" where
  "in_exchange c me t s \<longleftrightarrow>
     (\<forall>d. (if d \<in> set (neighbourList c me) then t \<le> rcvd d s \<and> rcvd d s \<le> t + 2 else rcvd d s = 0)
          \<and> edgeInBuffer s d = (if rcvd d s = t + 2 then Some (chan d s ! (t + 1)) else None)
          \<and> (if t < rcvd d s then edgeIn s d = chan d s ! t else True))
     \<and> edgesReceived s = length (filter (\<lambda>d. t < rcvd d s) (neighbourList c me))"

text \<open>
  The part of a state that the temperatures and the messages sent depend on: the two grids,
  the outgoing and incoming edges and the messages sent so far.
\<close>

definition core :: "state \<Rightarrow> state" where
  "core s = s\<lparr>edgeInBuffer := (\<lambda>d. None), edgesSent := 0, edgesReceived := 0, received := []\<rparr>"

subsection \<open>Example configurations\<close>

text \<open>A board of four threads (a 2 x 2 grid) with messages of four words (\<open>L = 3\<close>).\<close>

definition cfg22 :: config where
  "cfg22 = \<lparr>TinselLogThreadsPerBoard = 2, TinselLogWordsPerMsg = 2\<rparr>"

text \<open>
  Thread 0 of that board, the top left corner, before the first step, started with
  zeroed slots and stack.
\<close>

definition corner :: state where
  "corner = initial cfg22 0 (\<lambda>i. replicate 4 0) (replicate 3 (replicate 3 0))"

text \<open>
  What thread 0 may find in its first step: it can send, then it can send and the edge of its
  southern neighbour has arrived, then the edge of its eastern neighbour has arrived.
\<close>

definition arrivals0 :: "event list" where
  "arrivals0 = [CanSend, CanSendRecv [2, 1, 2, 3], CanRecv [4, 4, 5, 6]]"

text \<open>
  Thread 0 at the head of the exchange loop of step 0, after it has received the edge of step 0
  from its southern neighbour.
\<close>

definition after_south :: state where
  "after_south =
     projr (handle_event cfg22 0 0 (CanRecv [2, 1, 2, 3]) (begin_exchange (update_state cfg22 corner)))"

text \<open>
  Two orders of arrival of the same messages at thread 0 over two steps: three edges from the
  south (of phases 0, 1, 0) and two from the east (of phases 0, 1), each direction in its own
  order.  In the first order every edge arrives during its own step.  In the second the southern
  neighbour is one step ahead: its edge of phase 1 arrives during step 0.
\<close>

definition order_a :: "event list" where
  "order_a =
     [CanSend, CanSend, CanRecv [2, 65536, 65536, 65536], CanRecv [4, 0, 0, 0],
      CanSend, CanSend, CanRecv [3, 131072, 131072, 131072], CanRecv [5, 0, 0, 0],
      CanRecv [2, 196608, 196608, 196608]]"

definition order_c :: "event list" where
  "order_c =
     [CanSendRecv [2, 65536, 65536, 65536], CanRecv [3, 131072, 131072, 131072],
      CanSendRecv [4, 0, 0, 0],
      CanSend, CanRecv [5, 0, 0, 0], CanSend,
      CanRecv [2, 196608, 196608, 196608]]"

text \<open>
  A board of one thread with messages of four words (\<open>L = 3\<close>): the thread has no neighbour
  and all four incoming edges keep the temperatures applied at the rim.
\<close>

definition single :: config where
  "single = \<lparr>TinselLogThreadsPerBoard = 0, TinselLogWordsPerMsg = 2\<rparr>"

definition alone :: state where
  "alone = initial single 0 (\<lambda>i. replicate 4 0) (replicate 3 (replicate 3 0))"

text \<open>The temperatures at which the subgrid of that thread settles.\<close>

definition steady :: grid where
  "steady = [[14698788, 12685896, 9666559], [12685896, 9666558, 6647221], [9666559, 6647221, 4634330]]"

section \<open>Tags\<close>

lemma phase_of_bool: "phase t = of_bool (odd t)"
  by (simp add: phase_def and_one_eq mod_2_eq_odd)

lemma dir_of_dir_val: "dir_of (dir_val d) = Some d"
  by (cases d) (simp_all add: dir_of_def)

lemma tag_dir_mk_tag: "tag_dir (mk_tag d t) = dir_val (opposite d)"
  by (cases d; cases "even t"; simp add: mk_tag_def tag_dir_def phase_of_bool)

lemma tag_phase_mk_tag: "tag_phase (mk_tag d t) = phase t"
  by (cases d; cases "even t"; simp add: mk_tag_def tag_phase_def phase_of_bool)

text \<open>
  C9.  For every direction \<open>d\<close> and every step \<open>t\<close>, the tag word the sender writes is
  \<open>(opposite d << 1) | p\<close> with the phase bit \<open>p = t & 1\<close>, which is 0 for even and 1 for odd
  \<open>t\<close>; the receiver's \<open>w >> 1\<close> is the enumerator of \<open>opposite d\<close>, a valid index that names
  \<open>opposite d\<close>, and its \<open>w & 1\<close> is \<open>p\<close>.
\<close>

theorem tag_roundtrip:
  "mk_tag d t = push_bit 1 (dir_val (opposite d)) OR phase t
   \<and> phase t = of_bool (odd t)
   \<and> tag_dir (mk_tag d t) = dir_val (opposite d)
   \<and> dir_of (tag_dir (mk_tag d t)) = Some (opposite d)
   \<and> tag_phase (mk_tag d t) = phase t"
proof (intro conjI)
  show "mk_tag d t = push_bit 1 (dir_val (opposite d)) OR phase t"
    by (simp only: mk_tag_def)
  show "phase t = of_bool (odd t)"
    by (rule phase_of_bool)
  show "tag_dir (mk_tag d t) = dir_val (opposite d)"
    by (rule tag_dir_mk_tag)
  then show "dir_of (tag_dir (mk_tag d t)) = Some (opposite d)"
    by (simp only: dir_of_dir_val)
  show "tag_phase (mk_tag d t) = phase t"
    by (rule tag_phase_mk_tag)
qed

section \<open>Topology\<close>

subsection \<open>Words below a power of two\<close>

lemma unat_2p: "n < 32 \<Longrightarrow> unat (2 ^ n :: word32) = 2 ^ n"
proof -
  assume n: "n < 32"
  have "(2 ^ n :: word32) = of_nat (2 ^ n)" by simp
  then have "unat (2 ^ n :: word32) = unat (of_nat (2 ^ n) :: word32)" by (rule arg_cong)
  also have "\<dots> = 2 ^ n mod 2 ^ 32" unfolding unat_of_nat by simp
  also have "\<dots> = 2 ^ n" using n by (intro mod_less power_strict_increasing) simp_all
  finally show ?thesis .
qed

lemma p2_nonzero: "n < 32 \<Longrightarrow> (2 ^ n :: word32) \<noteq> 0"
proof
  assume "n < 32" "(2 ^ n :: word32) = 0"
  then have "(2::nat) ^ n = 0" using unat_2p [of n] by simp
  then show False by simp
qed

lemma unat_mask32: "n < 32 \<Longrightarrow> unat (mask n :: word32) = 2 ^ n - 1"
  unfolding mask_eq_exp_minus_1
  by (subst unat_minus_one) (simp_all only: p2_nonzero unat_2p not_False_eq_True)

lemma take_bit_small:
  fixes w :: word32
  assumes "unat w < 2 ^ n"
  shows "take_bit n w = w"
proof -
  have "unat (take_bit n w) = unat w"
    unfolding unsigned_take_bit_eq using assms by (simp add: take_bit_eq_mod)
  then show ?thesis by (simp only: word_unat_eq_iff)
qed

lemma unat_succ:
  fixes w :: word32
  assumes "unat w + 1 < 2 ^ k" and "k < 16"
  shows "unat (w + 1) = unat w + 1" and "w + 1 \<noteq> 0"
proof -
  have "(2::nat) ^ k < 2 ^ 32"
    using assms(2) by (intro power_strict_increasing) simp_all
  with assms(1) have "unat w + unat (1::word32) < 2 ^ LENGTH(32)" by simp
  then have "unat (w + 1) = unat w + unat (1::word32)"
    by (simp only: unat_add_lem)
  then show u: "unat (w + 1) = unat w + 1" by simp
  show "w + 1 \<noteq> 0"
  proof
    assume "w + 1 = 0"
    with u show False by simp
  qed
qed

lemma sint_nonneg:
  fixes w :: word32
  assumes "unat w < 2 ^ 31"
  shows "0 \<le> sint w"
proof -
  have "take_bit 31 w = w"
    using assms by (rule take_bit_small)
  then have "bit w 31 = bit (take_bit 31 w) 31" by simp
  then have "\<not> bit w 31" by (simp add: bit_take_bit_iff)
  then show ?thesis
    using bit_last_iff [of w] by simp
qed

subsection \<open>Splitting and joining coordinates\<close>

lemma len_minus_1: "len c - 1 = mask (logLen c)"
  by (simp add: len_def mask_eq_exp_minus_1 push_bit_eq_mult)

lemma xPos_mask: "xPos c me = take_bit (logLen c) me"
  by (simp add: xPos_def len_minus_1 take_bit_eq_mask)

lemma x_of_join: "take_bit k (push_bit k (w::word32) OR take_bit k x) = take_bit k x"
  by (rule bit_word_eqI) (auto simp: bit_simps)

lemma y_of_join: "drop_bit k (push_bit k (w::word32) OR take_bit k x) = take_bit (32 - k) w"
  by (rule bit_word_eqI) (auto simp: bit_simps)

lemma join_split: "push_bit k (drop_bit k (w::word32)) OR take_bit k w = w"
  by (rule bit_word_eqI) (auto simp: bit_simps)

lemma logLen_bound: "TinselLogThreadsPerBoard c < 32 \<Longrightarrow> logLen c < 16"
  by (simp add: logLen_def drop_bit_eq_div)

lemma len_pow: "len c = 2 ^ logLen c"
  by (simp add: len_def push_bit_eq_mult)

lemma len_sq: "len c * len c = 2 ^ (2 * logLen c)"
  by (simp add: len_pow mult_2 power_add)

lemma unat_len_sq: "logLen c < 16 \<Longrightarrow> unat (len c * len c) = 2 ^ (2 * logLen c)"
  unfolding len_sq by (intro unat_2p) simp

lemma yPos_less:
  assumes "logLen c < 16" "a < len c * len c"
  shows "unat (yPos c a) < 2 ^ logLen c"
proof -
  have "unat a < 2 ^ (2 * logLen c)"
    using assms by (simp only: word_less_nat_alt unat_len_sq)
  then have "unat a div 2 ^ logLen c < 2 ^ logLen c"
    by (simp add: less_mult_imp_div_less mult_2 power_add)
  moreover have "unat (yPos c a) = unat a div 2 ^ logLen c"
    unfolding yPos_def unat_drop_bit_eq by (simp add: drop_bit_eq_div)
  ultimately show ?thesis by simp
qed

lemma xPos_less: "unat (xPos c a) < 2 ^ logLen c"
proof -
  have "unat (xPos c a) = unat a mod 2 ^ logLen c"
    unfolding xPos_mask unsigned_take_bit_eq by (simp add: take_bit_eq_mod)
  then show ?thesis by simp
qed

lemma unat_len_m1: "logLen c < 16 \<Longrightarrow> unat (len c - 1) = 2 ^ logLen c - 1"
  by (simp add: len_minus_1 unat_mask32)

lemma coords_of_join:
  fixes w x :: word32
  assumes k: "logLen c < 16" and w: "unat w \<le> 2 ^ logLen c" and x: "unat x < 2 ^ logLen c"
  shows "yPos c (push_bit (logLen c) w OR x) = w"
    and "xPos c (push_bit (logLen c) w OR x) = x"
proof -
  have tx: "take_bit (logLen c) x = x"
    using x by (rule take_bit_small)
  have "(2::nat) ^ logLen c < 2 ^ (32 - logLen c)"
    using k by (intro power_strict_increasing) simp_all
  with w have "unat w < 2 ^ (32 - logLen c)" by (rule order_le_less_trans)
  then have tw: "take_bit (32 - logLen c) w = w"
    by (rule take_bit_small)
  show "yPos c (push_bit (logLen c) w OR x) = w"
    using y_of_join [of "logLen c" w x] by (simp add: yPos_def tx tw)
  show "xPos c (push_bit (logLen c) w OR x) = x"
    using x_of_join [of "logLen c" w x] by (simp add: xPos_mask tx)
qed

lemma join_coords: "push_bit (logLen c) (yPos c a) OR xPos c a = a"
  by (simp add: yPos_def xPos_mask join_split)

lemma unat_join_less:
  fixes w x :: word32
  assumes k: "logLen c < 16" and w: "unat w < 2 ^ logLen c" and x: "unat x < 2 ^ logLen c"
  shows "push_bit (logLen c) w OR x < len c * len c"
proof -
  have "yPos c (push_bit (logLen c) w OR x) = w"
    using k w x by (intro coords_of_join) simp_all
  then have "unat (push_bit (logLen c) w OR x) div 2 ^ logLen c = unat w"
    unfolding yPos_def by (metis unat_drop_bit_eq drop_bit_eq_div)
  with w have "unat (push_bit (logLen c) w OR x) < 2 ^ logLen c * 2 ^ logLen c"
    by (metis div_less_iff_less_mult zero_less_numeral zero_less_power mult.commute)
  then have "unat (push_bit (logLen c) w OR x) < 2 ^ (2 * logLen c)"
    by (simp add: mult_2 power_add)
  then show ?thesis
    using k by (simp only: word_less_nat_alt unat_len_sq)
qed

subsection \<open>Neighbours\<close>

lemma in_neighbourList: "d \<in> set (neighbourList c a) \<longleftrightarrow> 0 \<le> sint (neighbour c a d)"
  by (cases d) (auto simp: neighbourList_def)

lemma valid_nonneg:
  assumes k: "logLen c < 16" and a: "a < len c * len c"
  shows "0 \<le> sint a"
proof -
  from a have "unat a < 2 ^ (2 * logLen c)"
    using k by (simp only: word_less_nat_alt unat_len_sq)
  also have "(2::nat) ^ (2 * logLen c) < 2 ^ 31"
    using k by (intro power_strict_increasing) simp_all
  finally show ?thesis by (rule sint_nonneg)
qed

lemma neighbour_back:
  assumes k: "logLen c < 16" and a: "a < len c * len c"
    and listed: "0 \<le> sint (neighbour c a d)"
  shows "neighbour c (neighbour c a d) (opposite d) = a"
    and "neighbour c a d < len c * len c"
proof -
  let ?k = "logLen c"
  let ?y = "yPos c a" and ?x = "xPos c a"
  have y: "unat ?y < 2 ^ ?k" using k a by (rule yPos_less)
  have x: "unat ?x < 2 ^ ?k" by (rule xPos_less)
  have m: "unat (len c - 1) = 2 ^ ?k - 1" using k by (rule unat_len_m1)
  have both: "neighbour c (neighbour c a d) (opposite d) = a \<and> neighbour c a d < len c * len c"
  proof (cases d)
    case N
    with listed have y0: "?y \<noteq> 0" by (auto split: if_splits)
    then have u: "unat (?y - 1) = unat ?y - 1" by (rule unat_minus_one)
    from y0 have "unat ?y \<noteq> 0" by (simp add: unat_eq_0)
    with u y have lt: "unat (?y - 1) < 2 ^ ?k - 1" by simp
    then have le: "unat (?y - 1) \<le> 2 ^ ?k" and lt': "unat (?y - 1) < 2 ^ ?k" by simp_all
    have ne: "?y - 1 \<noteq> len c - 1" using lt m by auto
    have b: "neighbour c a d = push_bit ?k (?y - 1) OR ?x"
      using N y0 by simp
    have "neighbour c (neighbour c a d) (opposite d) = push_bit ?k (?y - 1 + 1) OR ?x"
      unfolding b using N ne by (simp add: coords_of_join [OF k le x])
    then show ?thesis
      unfolding b using unat_join_less [OF k lt' x] by (simp add: join_coords)
  next
    case S
    with listed have y1: "?y \<noteq> len c - 1" by (auto split: if_splits)
    then have "unat ?y \<noteq> 2 ^ ?k - 1" using m by (metis word_unat_eq_iff)
    with y have lt: "unat ?y + 1 < 2 ^ ?k" by simp
    have u: "unat (?y + 1) = unat ?y + 1" and ne: "?y + 1 \<noteq> 0"
      using unat_succ [OF lt k] by simp_all
    have le: "unat (?y + 1) \<le> 2 ^ ?k" and lt': "unat (?y + 1) < 2 ^ ?k" using u lt by simp_all
    have b: "neighbour c a d = push_bit ?k (?y + 1) OR ?x"
      using S y1 by simp
    have "neighbour c (neighbour c a d) (opposite d) = push_bit ?k (?y + 1 - 1) OR ?x"
      unfolding b using S ne by (simp add: coords_of_join [OF k le x])
    then show ?thesis
      unfolding b using unat_join_less [OF k lt' x] by (simp add: join_coords)
  next
    case E
    with listed have x1: "?x \<noteq> len c - 1" by (auto split: if_splits)
    then have "unat ?x \<noteq> 2 ^ ?k - 1" using m by (metis word_unat_eq_iff)
    with x have lt: "unat ?x + 1 < 2 ^ ?k" by simp
    have u: "unat (?x + 1) = unat ?x + 1" and ne: "?x + 1 \<noteq> 0"
      using unat_succ [OF lt k] by simp_all
    have lt': "unat (?x + 1) < 2 ^ ?k" using u lt by simp
    have le: "unat ?y \<le> 2 ^ ?k" using y by simp
    have b: "neighbour c a d = push_bit ?k ?y OR (?x + 1)"
      using E x1 by simp
    have "neighbour c (neighbour c a d) (opposite d) = push_bit ?k ?y OR (?x + 1 - 1)"
      unfolding b using E ne by (simp add: coords_of_join [OF k le lt'])
    then show ?thesis
      unfolding b using unat_join_less [OF k y lt'] by (simp add: join_coords)
  next
    case W
    with listed have x0: "?x \<noteq> 0" by (auto split: if_splits)
    then have u: "unat (?x - 1) = unat ?x - 1" by (rule unat_minus_one)
    from x0 have "unat ?x \<noteq> 0" by (simp add: unat_eq_0)
    with u x have lt: "unat (?x - 1) < 2 ^ ?k - 1" by simp
    then have lt': "unat (?x - 1) < 2 ^ ?k" by simp
    have ne: "?x - 1 \<noteq> len c - 1" using lt m by auto
    have le: "unat ?y \<le> 2 ^ ?k" using y by simp
    have b: "neighbour c a d = push_bit ?k ?y OR (?x - 1)"
      using W x0 by simp
    have "neighbour c (neighbour c a d) (opposite d) = push_bit ?k ?y OR (?x - 1 + 1)"
      unfolding b using W ne by (simp add: coords_of_join [OF k le lt'])
    then show ?thesis
      unfolding b using unat_join_less [OF k y lt'] by (simp add: join_coords)
  qed
  from both show "neighbour c (neighbour c a d) (opposite d) = a" ..
  from both show "neighbour c a d < len c * len c" ..
qed

text \<open>
  The code assumes that \<open>TinselLogThreadsPerBoard\<close> is even.  Then the threads of the square
  grid are all the threads of the board.  With an odd value the board has threads outside
  the square, and for them the neighbour relation is not symmetric: with eight threads,
  thread 4 names thread 2 as its northern neighbour, and thread 2 has no southern one.
\<close>

lemma board_is_square:
  assumes "even (TinselLogThreadsPerBoard c)" and "TinselLogThreadsPerBoard c < 32"
  shows "a < len c * len c \<longleftrightarrow> unat a < 2 ^ TinselLogThreadsPerBoard c"
proof -
  have "2 * logLen c = TinselLogThreadsPerBoard c"
    using assms(1) by (auto simp: logLen_def drop_bit_eq_div elim: evenE)
  then show ?thesis
    using unat_len_sq [OF logLen_bound [OF assms(2)]] by (simp add: word_less_nat_alt)
qed

lemma outside_the_square:
  "neighbour \<lparr>TinselLogThreadsPerBoard = 3, TinselLogWordsPerMsg = 2\<rparr> 4 N = 2
   \<and> neighbour \<lparr>TinselLogThreadsPerBoard = 3, TinselLogWordsPerMsg = 2\<rparr> 2 S = - 1
   \<and> \<not> (4 :: word32) < len \<lparr>TinselLogThreadsPerBoard = 3, TinselLogWordsPerMsg = 2\<rparr>
           * len \<lparr>TinselLogThreadsPerBoard = 3, TinselLogWordsPerMsg = 2\<rparr>"
  by code_simp

text \<open>
  C5.  Thread identifiers fit an \<^verbatim>\<open>int\<close> (\<open>TinselLogThreadsPerBoard < 32\<close>) and \<open>a\<close> is a
  thread of the square grid of \<open>len * len\<close> threads.  If \<open>a\<close> lists direction \<open>d\<close> with
  neighbour \<open>b\<close>, then \<open>b\<close> is a thread of the grid, \<open>b\<close> lists the opposite direction, and
  its neighbour there is \<open>a\<close>.
\<close>

theorem topology_symmetry:
  assumes "TinselLogThreadsPerBoard c < 32"
    and "a < len c * len c"
    and "d \<in> set (neighbourList c a)"
    and "b = neighbour c a d"
  shows "neighbour c b (opposite d) = a
         \<and> opposite d \<in> set (neighbourList c b)
         \<and> b < len c * len c"
proof -
  have k: "logLen c < 16"
    using assms(1) by (rule logLen_bound)
  have listed: "0 \<le> sint (neighbour c a d)"
    using assms(3) by (simp only: in_neighbourList)
  have ret: "neighbour c b (opposite d) = a" and valid: "b < len c * len c"
    unfolding assms(4) using k assms(2) listed by (rule neighbour_back)+
  have "0 \<le> sint a"
    using k assms(2) by (rule valid_nonneg)
  with ret have "opposite d \<in> set (neighbourList c b)"
    by (simp only: in_neighbourList)
  with ret valid show ?thesis by simp
qed

theorem topology_symmetry_witness:
  "neighbour cfg22 1 S = 3 \<and> neighbour cfg22 3 N = 1 \<and> N \<in> set (neighbourList cfg22 3)"
proof -
  have 1: "TinselLogThreadsPerBoard cfg22 < 32" by code_simp
  have 2: "(1::word32) < len cfg22 * len cfg22" by code_simp
  have 3: "S \<in> set (neighbourList cfg22 1)" by code_simp
  have 4: "(3::word32) = neighbour cfg22 1 S" by code_simp
  have 5: "opposite S = N" by code_simp
  from topology_symmetry [OF 1 2 3 4] show ?thesis
    unfolding 5 4 [symmetric] by simp
qed

section \<open>Update of the subgrid\<close>

lemma fold_upt_Suc: "fold f [0..<Suc n] s = f n (fold f [0..<n] s)"
  by simp

lemma set_edge_frame:
  "subgrid (set_edge d i v s) = subgrid s"
  "newSubgrid (set_edge d i v s) = newSubgrid s"
  "edgeIn (set_edge d i v s) = edgeIn s"
  "edgeInBuffer (set_edge d i v s) = edgeInBuffer s"
  "edgesSent (set_edge d i v s) = edgesSent s"
  "edgesReceived (set_edge d i v s) = edgesReceived s"
  "sent (set_edge d i v s) = sent s"
  "received (set_edge d i v s) = received s"
  by (simp_all add: set_edge_def)

lemma update_cell_frame:
  "subgrid (update_cell c y x s) = subgrid s"
  "edgeIn (update_cell c y x s) = edgeIn s"
  "edgeInBuffer (update_cell c y x s) = edgeInBuffer s"
  "edgesSent (update_cell c y x s) = edgesSent s"
  "edgesReceived (update_cell c y x s) = edgesReceived s"
  "sent (update_cell c y x s) = sent s"
  "received (update_cell c y x s) = received s"
  by (simp_all add: update_cell_def Let_def set_edge_frame)

lemma update_cell_new:
  "newSubgrid (update_cell c y x s) =
     (newSubgrid s)[y := (newSubgrid s ! y)[x := newTemp c (edgeIn s) (subgrid s) y x]]"
  by (simp add: update_cell_def Let_def set_edge_frame)

lemma row_loop_frame:
  "subgrid (fold (update_cell c y) [0..<n] s) = subgrid s"
  "edgeIn (fold (update_cell c y) [0..<n] s) = edgeIn s"
  "edgeInBuffer (fold (update_cell c y) [0..<n] s) = edgeInBuffer s"
  "edgesSent (fold (update_cell c y) [0..<n] s) = edgesSent s"
  "edgesReceived (fold (update_cell c y) [0..<n] s) = edgesReceived s"
  "sent (fold (update_cell c y) [0..<n] s) = sent s"
  "received (fold (update_cell c y) [0..<n] s) = received s"
  by (induction n; simp add: update_cell_frame)+

lemma row_loop_length:
  "length (newSubgrid (fold (update_cell c y) [0..<n] s)) = length (newSubgrid s)"
  "length (newSubgrid (fold (update_cell c y) [0..<n] s) ! i) = length (newSubgrid s ! i)"
proof (induction n)
  case 0
  { case 1 show ?case by simp next case 2 show ?case by simp }
next
  case (Suc n)
  { case 1 show ?case using Suc.IH(1) by (simp add: update_cell_new)
  next case 2 show ?case using Suc.IH
      by (cases "i = y"; cases "y < length (newSubgrid s)")
        (simp_all add: update_cell_new list_update_beyond) }
qed

lemma row_loop_new:
  assumes "y < length (newSubgrid s)" and "n \<le> length (newSubgrid s ! y)"
  shows "newSubgrid (fold (update_cell c y) [0..<n] s) ! i ! j =
           (if i = y \<and> j < n then newTemp c (edgeIn s) (subgrid s) y j else newSubgrid s ! i ! j)"
  using assms(2)
proof (induction n)
  case 0
  show ?case by simp
next
  case (Suc n)
  let ?s = "fold (update_cell c y) [0..<n] s"
  have IH: "newSubgrid ?s ! i ! j =
           (if i = y \<and> j < n then newTemp c (edgeIn s) (subgrid s) y j else newSubgrid s ! i ! j)"
    using Suc by simp
  have ly: "y < length (newSubgrid ?s)" using assms(1) by (simp add: row_loop_length)
  have ln: "n < length (newSubgrid ?s ! y)" using Suc.prems by (simp add: row_loop_length)
  show ?case
    unfolding fold_upt_Suc update_cell_new row_loop_frame
    using IH ly ln by (cases "i = y"; cases "j = n") (simp_all add: less_Suc_eq)
qed

lemma grid_loop_frame:
  "subgrid (fold (\<lambda>y. fold (update_cell c y) [0..<k]) [0..<m] s) = subgrid s"
  "edgeIn (fold (\<lambda>y. fold (update_cell c y) [0..<k]) [0..<m] s) = edgeIn s"
  "edgeInBuffer (fold (\<lambda>y. fold (update_cell c y) [0..<k]) [0..<m] s) = edgeInBuffer s"
  "edgesSent (fold (\<lambda>y. fold (update_cell c y) [0..<k]) [0..<m] s) = edgesSent s"
  "edgesReceived (fold (\<lambda>y. fold (update_cell c y) [0..<k]) [0..<m] s) = edgesReceived s"
  "sent (fold (\<lambda>y. fold (update_cell c y) [0..<k]) [0..<m] s) = sent s"
  "received (fold (\<lambda>y. fold (update_cell c y) [0..<k]) [0..<m] s) = received s"
  by (induction m; simp add: row_loop_frame)+

lemma grid_loop_length:
  "length (newSubgrid (fold (\<lambda>y. fold (update_cell c y) [0..<k]) [0..<m] s)) = length (newSubgrid s)"
  "length (newSubgrid (fold (\<lambda>y. fold (update_cell c y) [0..<k]) [0..<m] s) ! i) = length (newSubgrid s ! i)"
  by (induction m; simp add: row_loop_length)+

lemma grid_loop_new:
  assumes "m \<le> length (newSubgrid s)" and "\<forall>y<m. k \<le> length (newSubgrid s ! y)"
  shows "newSubgrid (fold (\<lambda>y. fold (update_cell c y) [0..<k]) [0..<m] s) ! i ! j =
           (if i < m \<and> j < k then newTemp c (edgeIn s) (subgrid s) i j else newSubgrid s ! i ! j)"
  using assms
proof (induction m)
  case 0
  show ?case by simp
next
  case (Suc m)
  let ?s = "fold (\<lambda>y. fold (update_cell c y) [0..<k]) [0..<m] s"
  have IH: "newSubgrid ?s ! i ! j =
           (if i < m \<and> j < k then newTemp c (edgeIn s) (subgrid s) i j else newSubgrid s ! i ! j)"
    using Suc by simp
  have 1: "m < length (newSubgrid ?s)" using Suc.prems by (simp add: grid_loop_length)
  have 2: "k \<le> length (newSubgrid ?s ! m)" using Suc.prems by (simp add: grid_loop_length)
  show ?case
    unfolding fold_upt_Suc row_loop_new [OF 1 2] grid_loop_frame
    using IH by (auto simp: less_Suc_eq)
qed

lemma grid_okD:
  "grid_ok c g \<Longrightarrow> length g = L c"
  "grid_ok c g \<Longrightarrow> y < L c \<Longrightarrow> length (g ! y) = L c"
  by (simp_all add: grid_ok_def list_all_length)

lemma update_state_frame:
  "subgrid (update_state c s) = subgrid s"
  "edgeIn (update_state c s) = edgeIn s"
  "edgeInBuffer (update_state c s) = edgeInBuffer s"
  "edgesSent (update_state c s) = edgesSent s"
  "edgesReceived (update_state c s) = edgesReceived s"
  "sent (update_state c s) = sent s"
  "received (update_state c s) = received s"
  by (simp_all add: update_state_def grid_loop_frame)

lemma update_state_new:
  assumes "grid_ok c (newSubgrid s)" and "y < L c" and "x < L c"
  shows "newSubgrid (update_state c s) ! y ! x = newTemp c (edgeIn s) (subgrid s) y x"
  unfolding update_state_def
  using assms by (subst grid_loop_new) (simp_all add: grid_okD)

lemma update_state_grid_ok: "grid_ok c (newSubgrid s) \<Longrightarrow> grid_ok c (newSubgrid (update_state c s))"
  by (simp add: grid_ok_def list_all_length update_state_def grid_loop_length)

lemma newTemp_surroundings: "newTemp c ein g y x = surroundings c ein g y x"
  by (simp add: newTemp_def)

lemma sint_shift2: "sint (signed_drop_bit 2 (w::word32)) = sint w div 4"
  by (simp add: sint_signed_drop_bit_eq drop_bit_eq_div)

subsection \<open>Outgoing edges after the update\<close>

lemma update_cell_out_length: "length (edgeOut (update_cell c y x s) d) = length (edgeOut s d)"
  by (cases d) (simp_all add: update_cell_def Let_def set_edge_def)

lemma update_cell_out:
  assumes "Suc j < length (edgeOut s d)"
  shows "edgeOut (update_cell c y x s) d ! Suc j =
           (if edge_cell c d j = (y, x) then newTemp c (edgeIn s) (subgrid s) y x
            else edgeOut s d ! Suc j)"
  using assms by (cases d) (auto simp: update_cell_def Let_def set_edge_def nth_list_update)

lemma row_loop_out_length:
  "length (edgeOut (fold (update_cell c y) [0..<n] s) d) = length (edgeOut s d)"
  by (induction n) (simp_all add: update_cell_out_length)

lemma row_loop_out:
  assumes "Suc j < length (edgeOut s d)"
  shows "edgeOut (fold (update_cell c y) [0..<n] s) d ! Suc j =
           (if fst (edge_cell c d j) = y \<and> snd (edge_cell c d j) < n
            then newTemp c (edgeIn s) (subgrid s) y (snd (edge_cell c d j))
            else edgeOut s d ! Suc j)"
proof (induction n)
  case 0
  show ?case by simp
next
  case (Suc n)
  let ?s = "fold (update_cell c y) [0..<n] s"
  have len: "Suc j < length (edgeOut ?s d)"
    using assms by (simp add: row_loop_out_length)
  show ?case
    unfolding fold_upt_Suc update_cell_out [OF len] row_loop_frame Suc.IH
    by (auto simp: less_Suc_eq prod_eq_iff)
qed

lemma grid_loop_out_length:
  "length (edgeOut (fold (\<lambda>y. fold (update_cell c y) [0..<k]) [0..<m] s) d) = length (edgeOut s d)"
  by (induction m) (simp_all add: row_loop_out_length)

lemma grid_loop_out:
  assumes "Suc j < length (edgeOut s d)"
  shows "edgeOut (fold (\<lambda>y. fold (update_cell c y) [0..<k]) [0..<m] s) d ! Suc j =
           (if fst (edge_cell c d j) < m \<and> snd (edge_cell c d j) < k
            then newTemp c (edgeIn s) (subgrid s) (fst (edge_cell c d j)) (snd (edge_cell c d j))
            else edgeOut s d ! Suc j)"
proof (induction m)
  case 0
  show ?case by simp
next
  case (Suc m)
  let ?s = "fold (\<lambda>y. fold (update_cell c y) [0..<k]) [0..<m] s"
  have len: "Suc j < length (edgeOut ?s d)"
    using assms by (simp add: grid_loop_out_length)
  show ?case
    unfolding fold_upt_Suc row_loop_out [OF len] grid_loop_frame Suc.IH
    by (auto simp: less_Suc_eq)
qed

lemma edge_cell_in_grid: "j < L c \<Longrightarrow> fst (edge_cell c d j) < L c \<and> snd (edge_cell c d j) < L c"
  by (cases d) simp_all

lemma update_state_out_length: "length (edgeOut (update_state c s) d) = length (edgeOut s d)"
  by (simp add: update_state_def grid_loop_out_length)

lemma update_state_out:
  assumes "grid_ok c (newSubgrid s)" and "slot_ok c (edgeOut s d)" and "j < L c"
  shows "edgeOut (update_state c s) d ! Suc j =
           newSubgrid (update_state c s) ! fst (edge_cell c d j) ! snd (edge_cell c d j)"
proof -
  have len: "Suc j < length (edgeOut s d)"
    using assms(2,3) by (simp add: slot_ok_def)
  note cell = edge_cell_in_grid [OF assms(3), of d]
  have "edgeOut (update_state c s) d ! Suc j =
      newTemp c (edgeIn s) (subgrid s) (fst (edge_cell c d j)) (snd (edge_cell c d j))"
    unfolding update_state_def grid_loop_out [OF len] using cell by simp
  also have "\<dots> = newSubgrid (update_state c s) ! fst (edge_cell c d j) ! snd (edge_cell c d j)"
    using assms(1) cell by (simp add: update_state_new)
  finally show ?thesis .
qed

lemma update_state_edge:
  assumes "grid_ok c (newSubgrid s)" and "slot_ok c (edgeOut s d)"
  shows "tl (edgeOut (update_state c s) d) = edge_of c (newSubgrid (update_state c s)) d"
proof (rule nth_equalityI)
  show "length (tl (edgeOut (update_state c s) d)) = length (edge_of c (newSubgrid (update_state c s)) d)"
    using assms(2) by (simp add: update_state_out_length slot_ok_def edge_of_def)
next
  fix j
  assume "j < length (tl (edgeOut (update_state c s) d))"
  then have j: "j < L c"
    using assms(2) by (simp add: update_state_out_length slot_ok_def)
  then show "tl (edgeOut (update_state c s) d) ! j = edge_of c (newSubgrid (update_state c s)) d ! j"
    using update_state_out [OF assms j] assms(2)
    by (simp add: nth_tl update_state_out_length slot_ok_def edge_of_def)
qed

section \<open>Emission of the result\<close>

lemma emit_row: "fold (\<lambda>j out. out @ [f j]) [0..<n] acc = acc @ map f [0..<n]"
  by (induction n) simp_all

lemma emit_rows:
  "fold (\<lambda>i out. fold (\<lambda>j out. out @ [f i j]) [0..<k] out) [0..<n] acc =
     acc @ concat (map (\<lambda>i. map (f i) [0..<k]) [0..<n])"
  by (induction n) (simp_all add: emit_row)

lemma emit_concat:
  "emit c me g = concat (map (\<lambda>i. map (\<lambda>j. host_word c me g i j) [0..<L c]) [0..<L c])"
  by (simp add: emit_def emit_rows)

lemma length_concat_rows: "length (concat (map (\<lambda>i. map (f i) [0..<k]) [0..<n])) = n * k"
  by (induction n) simp_all

lemma nth_concat_rows:
  "i < n \<Longrightarrow> j < k \<Longrightarrow> concat (map (\<lambda>i. map (f i) [0..<k]) [0..<n]) ! (i * k + j) = f i j"
proof (induction n)
  case 0
  then show ?case by simp
next
  case (Suc n)
  show ?case
  proof (cases "i = n")
    case True
    with Suc.prems show ?thesis
      by (simp add: nth_append length_concat_rows)
  next
    case False
    with Suc.prems have i: "i < n" by simp
    then have "i * k + j < n * k"
      using Suc.prems(2)
      by (metis Suc_leI add.commute add_less_cancel_left less_le_trans mult_Suc mult_le_mono1)
    with Suc.IH [OF i Suc.prems(2)] show ?thesis
      by (simp add: nth_append length_concat_rows)
  qed
qed

lemma integer_part_byte: "signed_drop_bit 16 (w::word32) AND 255 = take_bit 8 (drop_bit 16 w)"
proof -
  have "(255::word32) = mask 8" by (simp add: mask_eq_exp_minus_1)
  then show ?thesis
    by (simp only: flip: take_bit_eq_mask) (rule bit_word_eqI, auto simp: bit_simps bit_signed_drop_bit_iff)
qed


lemma main_emits:
  "simulation c me 1000 0 evs (initial c me slot space) = Inr (s, rest) \<Longrightarrow>
   main c me slot space evs = Inr (sent s, emit c me (subgrid s))"
  by (simp add: main_def)

subsection \<open>Global coordinates\<close>

lemma of_nat_L: "(of_nat (L c) :: word32) = 2 ^ TinselLogWordsPerMsg c - 1"
  by (simp add: L_def push_bit_eq_mult)

lemma base_times_L: "push_bit (TinselLogWordsPerMsg c) w - w = w * (of_nat (L c) :: word32)"
  by (simp add: of_nat_L push_bit_eq_mult algebra_simps)

lemma unat_L: "TinselLogWordsPerMsg c < 32 \<Longrightarrow> L c = 2 ^ TinselLogWordsPerMsg c - 1"
  unfolding L_def push_bit_eq_mult mult_1
  by (subst unat_minus_one) (simp_all only: p2_nonzero unat_2p not_False_eq_True)

lemma unat_of_nat_small: "n < 2 ^ 32 \<Longrightarrow> unat (of_nat n :: word32) = n"
  by (simp add: unat_of_nat)

lemma coord_bound:
  assumes kw: "logLen c + TinselLogWordsPerMsg c < 32"
    and p: "p < 2 ^ logLen c" and i: "i < L c"
  shows "p * L c + i < 2 ^ logLen c * L c" and "p * L c + i < 2 ^ 32"
proof -
  have w: "TinselLogWordsPerMsg c < 32" using kw by simp
  have "p * L c + i < p * L c + L c" using i by simp
  also have "\<dots> = Suc p * L c" by simp
  also have "\<dots> \<le> 2 ^ logLen c * L c"
    using p by (intro mult_le_mono1) simp
  finally show 1: "p * L c + i < 2 ^ logLen c * L c" .
  have "L c \<le> 2 ^ TinselLogWordsPerMsg c"
    using w by (simp add: unat_L)
  then have "(2::nat) ^ logLen c * L c \<le> 2 ^ logLen c * 2 ^ TinselLogWordsPerMsg c"
    by (intro mult_le_mono2)
  also have "\<dots> = 2 ^ (logLen c + TinselLogWordsPerMsg c)"
    by (simp add: power_add)
  also have "\<dots> < 2 ^ 32"
    using kw by (intro power_strict_increasing) simp_all
  finally show "p * L c + i < 2 ^ 32"
    using 1 by simp
qed

lemma unat_base_plus:
  fixes w :: word32
  assumes kw: "logLen c + TinselLogWordsPerMsg c < 32"
    and p: "unat w < 2 ^ logLen c" and i: "i < L c"
  shows "unat (push_bit (TinselLogWordsPerMsg c) w - w + of_nat i) = unat w * L c + i"
proof -
  have "push_bit (TinselLogWordsPerMsg c) w - w + of_nat i = of_nat (unat w) * of_nat (L c) + of_nat i"
    by (simp add: base_times_L)
  also have "\<dots> = of_nat (unat w * L c + i)" by simp
  finally show ?thesis
    using coord_bound(2) [OF kw p i] by (simp only: unat_of_nat_small)
qed

lemma cell_coords_eq:
  assumes k: "logLen c < 16" and kw: "logLen c + TinselLogWordsPerMsg c < 32"
    and a: "a < len c * len c" and i: "i < L c" and j: "j < L c"
  shows "cell_coords c a i j = (unat (yPos c a) * L c + i, unat (xPos c a) * L c + j)"
  unfolding cell_coords_def xBase_def yBase_def
  using unat_base_plus [OF kw yPos_less [OF k a] i] unat_base_plus [OF kw xPos_less j]
  by simp


lemma cells_iff:
  "p \<in> cells c a \<longleftrightarrow> (\<exists>i j. i < L c \<and> j < L c \<and> p = cell_coords c a i j)"
  unfolding cells_def by force

lemma block_div: "i < n \<Longrightarrow> (p * n + i) div n = (p::nat)"
  by simp

lemma cells_disjoint:
  assumes k: "logLen c < 16" and kw: "logLen c + TinselLogWordsPerMsg c < 32"
    and a: "a < len c * len c" and b: "b < len c * len c" and ne: "a \<noteq> b"
  shows "cells c a \<inter> cells c b = {}"
proof (rule ccontr)
  assume "cells c a \<inter> cells c b \<noteq> {}"
  then obtain p where "p \<in> cells c a" and "p \<in> cells c b" by blast
  then obtain i j i' j' where ij: "i < L c" "j < L c" "i' < L c" "j' < L c"
    and eq: "cell_coords c a i j = cell_coords c b i' j'"
    unfolding cells_iff by blast
  from eq have r: "unat (yPos c a) * L c + i = unat (yPos c b) * L c + i'"
    and q: "unat (xPos c a) * L c + j = unat (xPos c b) * L c + j'"
    unfolding cell_coords_eq [OF k kw a ij(1,2)] cell_coords_eq [OF k kw b ij(3,4)]
    by (simp_all only: prod.inject)
  have "unat (yPos c a) = unat (yPos c b)"
    using arg_cong [OF r, of "\<lambda>n. n div L c"] ij by (simp only: block_div)
  moreover have "unat (xPos c a) = unat (xPos c b)"
    using arg_cong [OF q, of "\<lambda>n. n div L c"] ij by (simp only: block_div)
  ultimately have yy: "yPos c a = yPos c b" and xx: "xPos c a = xPos c b"
    by (simp_all only: word_unat_eq_iff)
  have "a = push_bit (logLen c) (yPos c a) OR xPos c a"
    by (simp only: join_coords)
  also have "\<dots> = push_bit (logLen c) (yPos c b) OR xPos c b"
    by (simp only: yy xx)
  also have "\<dots> = b"
    by (rule join_coords)
  finally show False
    using ne by simp
qed

lemma cells_cover:
  assumes k: "logLen c < 16" and kw: "logLen c + TinselLogWordsPerMsg c < 32"
  shows "(\<Union>a \<in> {a. a < len c * len c}. cells c a)
           = {0..<unat (len c) * L c} \<times> {0..<unat (len c) * L c}"
proof (intro set_eqI iffI)
  fix p
  assume "p \<in> (\<Union>a \<in> {a. a < len c * len c}. cells c a)"
  then obtain a i j where a: "a < len c * len c" and ij: "i < L c" "j < L c"
    and p: "p = cell_coords c a i j"
    unfolding UN_iff mem_Collect_eq cells_iff by blast
  have "p = (unat (yPos c a) * L c + i, unat (xPos c a) * L c + j)"
    unfolding p using k kw a ij by (rule cell_coords_eq)
  then show "p \<in> {0..<unat (len c) * L c} \<times> {0..<unat (len c) * L c}"
    using coord_bound(1) [OF kw yPos_less [OF k a] ij(1)] coord_bound(1) [OF kw xPos_less ij(2)]
    by (simp add: len_pow unat_2p k [THEN less_trans])
next
  fix p :: "nat \<times> nat"
  assume "p \<in> {0..<unat (len c) * L c} \<times> {0..<unat (len c) * L c}"
  then have r: "fst p < 2 ^ logLen c * L c" and q: "snd p < 2 ^ logLen c * L c"
    using k by (auto simp: len_pow unat_2p)
  then have pos: "0 < L c" by (cases "L c = 0") simp_all
  define y x where "y = fst p div L c" and "x = snd p div L c"
  define a :: word32 where "a = push_bit (logLen c) (of_nat y) OR of_nat x"
  have y: "y < 2 ^ logLen c" and x: "x < 2 ^ logLen c"
    unfolding y_def x_def using r q pos by (simp_all add: div_less_iff_less_mult mult.commute)
  have "(2::nat) ^ logLen c < 2 ^ 32"
    using k by (intro power_strict_increasing) simp_all
  with y x have uy: "unat (of_nat y :: word32) = y" and ux: "unat (of_nat x :: word32) = x"
    by (simp_all add: unat_of_nat_small)
  have ya: "yPos c a = of_nat y" and xa: "xPos c a = of_nat x"
    unfolding a_def using k y x by (simp_all add: coords_of_join uy ux)
  have valid: "a < len c * len c"
    unfolding a_def using k y x by (intro unat_join_less) (simp_all add: uy ux)
  have ij: "fst p mod L c < L c" "snd p mod L c < L c"
    using pos by simp_all
  have "cell_coords c a (fst p mod L c) (snd p mod L c) = p"
    unfolding cell_coords_eq [OF k kw valid ij] ya xa uy ux
    by (simp add: y_def x_def prod_eq_iff)
  with ij have "p \<in> cells c a"
    unfolding cells_iff by metis
  with valid show "p \<in> (\<Union>a \<in> {a. a < len c * len c}. cells c a)"
    by blast
qed


text \<open>
  C10.  In 32-bit arithmetic \<open>(xPos << TinselLogWordsPerMsg) - xPos\<close> is \<open>xPos * L\<close>, and
  likewise for \<open>yPos\<close>, where \<open>L = (1 << TinselLogWordsPerMsg) - 1\<close>.  When thread identifiers
  fit an \<^verbatim>\<open>int\<close> and the side \<open>len * L\<close> of the global grid does too
  (\<open>logLen + TinselLogWordsPerMsg < 32\<close>): cell \<open>(i, j)\<close> of a thread of the square grid is
  emitted with the coordinates \<open>(yPos * L + i, xPos * L + j)\<close>; the coordinates of two
  different threads of the grid never coincide; and the coordinates of all threads of the grid
  are exactly the pairs below \<open>len * L\<close>.
\<close>

theorem global_coordinates:
  assumes "TinselLogThreadsPerBoard c < 32" and "logLen c + TinselLogWordsPerMsg c < 32"
  shows
    "xBase c a = xPos c a * of_nat (L c)
     \<and> yBase c a = yPos c a * of_nat (L c)
     \<and> L c = 2 ^ TinselLogWordsPerMsg c - 1
     \<and> (a < len c * len c \<and> i < L c \<and> j < L c \<longrightarrow>
          cell_coords c a i j = (unat (yPos c a) * L c + i, unat (xPos c a) * L c + j))
     \<and> (a < len c * len c \<and> b < len c * len c \<and> a \<noteq> b \<longrightarrow> cells c a \<inter> cells c b = {})
     \<and> (\<Union>a \<in> {a. a < len c * len c}. cells c a)
          = {0..<unat (len c) * L c} \<times> {0..<unat (len c) * L c}"
proof -
  have k: "logLen c < 16"
    using assms(1) by (rule logLen_bound)
  note kw = assms(2)
  have "xBase c a = xPos c a * of_nat (L c)" and "yBase c a = yPos c a * of_nat (L c)"
    by (simp_all only: xBase_def yBase_def base_times_L)
  moreover have "L c = 2 ^ TinselLogWordsPerMsg c - 1"
    using kw by (intro unat_L) simp
  moreover have "cell_coords c a i j = (unat (yPos c a) * L c + i, unat (xPos c a) * L c + j)"
    if "a < len c * len c \<and> i < L c \<and> j < L c"
    using k kw that by (intro cell_coords_eq) simp_all
  moreover have "cells c a \<inter> cells c b = {}"
    if "a < len c * len c \<and> b < len c * len c \<and> a \<noteq> b"
    using k kw that by (intro cells_disjoint) simp_all
  moreover note cells_cover [OF k kw]
  ultimately show ?thesis by blast
qed

theorem global_coordinates_witness:
  "xBase cfg22 1 = 3 \<and> cell_coords cfg22 1 2 1 = (2, 4) \<and> cells cfg22 1 \<inter> cells cfg22 2 = {}"
proof -
  have 1: "TinselLogThreadsPerBoard cfg22 < 32" by code_simp
  have 2: "logLen cfg22 + TinselLogWordsPerMsg cfg22 < 32" by code_simp
  have 3: "(1::word32) < len cfg22 * len cfg22 \<and> (2::nat) < L cfg22 \<and> (1::nat) < L cfg22"
    by code_simp
  have 4: "(1::word32) < len cfg22 * len cfg22 \<and> (2::word32) < len cfg22 * len cfg22
      \<and> (1::word32) \<noteq> 2"
    by code_simp
  have 5: "xPos cfg22 1 * of_nat (L cfg22) = 3"
    "(unat (yPos cfg22 1) * L cfg22 + 2, unat (xPos cfg22 1) * L cfg22 + 1) = (2, 4)"
    by code_simp+
  note g = global_coordinates [OF 1 2, of 1 2 1 2]
  from g have "xBase cfg22 1 = xPos cfg22 1 * of_nat (L cfg22)"
    by (elim conjE)
  moreover from g 3 have "cell_coords cfg22 1 2 1
      = (unat (yPos cfg22 1) * L cfg22 + 2, unat (xPos cfg22 1) * L cfg22 + 1)"
    by blast
  moreover from g 4 have "cells cfg22 1 \<inter> cells cfg22 2 = {}"
    by blast
  ultimately show ?thesis
    unfolding 5 by simp
qed

section \<open>Exchange of edges\<close>

subsection \<open>Recognising buffered edges\<close>

lemma recognise_frame:
  "subgrid (recognise i s) = subgrid s"
  "newSubgrid (recognise i s) = newSubgrid s"
  "edgeOut (recognise i s) = edgeOut s"
  "edgesSent (recognise i s) = edgesSent s"
  "sent (recognise i s) = sent s"
  "received (recognise i s) = received s"
  by (simp_all add: recognise_def split: option.splits)

lemma recognise_edgeIn:
  "edgeIn (recognise i s) d =
     (if d = i then (case edgeInBuffer s i of None \<Rightarrow> edgeIn s i | Some m \<Rightarrow> m) else edgeIn s d)"
  by (simp add: recognise_def split: option.splits)

lemma recognise_buffer:
  "edgeInBuffer (recognise i s) d = (if d = i then None else edgeInBuffer s d)"
  by (simp add: recognise_def split: option.splits)

lemma recognise_count:
  "edgesReceived (recognise i s) = edgesReceived s + (if edgeInBuffer s i = None then 0 else 1)"
  by (simp add: recognise_def split: option.splits)

lemma begin_exchange_frame:
  "subgrid (begin_exchange s) = subgrid s"
  "newSubgrid (begin_exchange s) = newSubgrid s"
  "edgeOut (begin_exchange s) = edgeOut s"
  "edgesSent (begin_exchange s) = 0"
  "sent (begin_exchange s) = sent s"
  "received (begin_exchange s) = received s"
  by (simp_all add: begin_exchange_def recognise_frame)

lemma begin_exchange_edgeIn:
  "edgeIn (begin_exchange s) d = (case edgeInBuffer s d of None \<Rightarrow> edgeIn s d | Some m \<Rightarrow> m)"
  by (cases d) (simp_all add: begin_exchange_def recognise_edgeIn recognise_buffer split: option.splits)

lemma begin_exchange_buffer: "edgeInBuffer (begin_exchange s) d = None"
  by (cases d) (simp_all add: begin_exchange_def recognise_buffer)

lemma begin_exchange_count:
  "edgesReceived (begin_exchange s) = length (filter (\<lambda>i. edgeInBuffer s i \<noteq> None) [N, S, E, W])"
  by (simp add: begin_exchange_def recognise_count recognise_buffer)

lemma Dir_UNIV: "(UNIV :: Dir set) = {N, S, E, W}"
proof -
  have "d \<in> {N, S, E, W}" for d by (cases d) simp_all
  then show ?thesis by blast
qed

lemma card_buffered:
  "card {d. edgeInBuffer s d \<noteq> None} = length (filter (\<lambda>i. edgeInBuffer s i \<noteq> None) [N, S, E, W])"
proof -
  have "d \<in> set [N, S, E, W]" for d by (cases d) simp_all
  then have "{d. edgeInBuffer s d \<noteq> None} = set (filter (\<lambda>i. edgeInBuffer s i \<noteq> None) [N, S, E, W])"
    unfolding set_filter by blast
  moreover have "distinct (filter (\<lambda>i. edgeInBuffer s i \<noteq> None) [N, S, E, W])"
    by simp
  ultimately show ?thesis
    by (simp only: distinct_card)
qed

text \<open>
  C2.  At the start of the exchange of a step, before the loop that calls \<^verbatim>\<open>tinselRecv\<close> is
  entered (the history of received messages is as it was), for every direction whose slot of
  \<open>edgeInBuffer\<close> is not empty the content of the slot has become the incoming edge of that
  direction; every slot is empty; and the count of received edges, reset to 0 just before, is
  the number of slots that were not empty.  The loop then starts from this state with all the
  events still to come.
\<close>

theorem buffered_edges_first:
  "edgeIn (begin_exchange s) d = (case edgeInBuffer s d of None \<Rightarrow> edgeIn s d | Some m \<Rightarrow> m)
   \<and> edgeInBuffer (begin_exchange s) d = None
   \<and> edgesReceived (begin_exchange s) = card {i. edgeInBuffer s i \<noteq> None}
   \<and> received (begin_exchange s) = received s
   \<and> time_step c me t evs s =
       (case exchange c me t evs (begin_exchange (update_state c s)) of
          Inl f \<Rightarrow> Inl f
        | Inr (s', rest) \<Rightarrow> Inr (switch_buffers s', rest))
   \<and> edgeInBuffer (update_state c s) = edgeInBuffer s
   \<and> received (update_state c s) = received s"
  by (simp only: begin_exchange_edgeIn begin_exchange_buffer begin_exchange_count card_buffered
      begin_exchange_frame time_step_def update_state_frame simp_thms)


subsection \<open>The handlers\<close>

lemma send_handler_frame:
  "subgrid (send_handler c me t s) = subgrid s"
  "newSubgrid (send_handler c me t s) = newSubgrid s"
  "edgeIn (send_handler c me t s) = edgeIn s"
  "edgeInBuffer (send_handler c me t s) = edgeInBuffer s"
  "edgesReceived (send_handler c me t s) = edgesReceived s"
  "received (send_handler c me t s) = received s"
  "edgesSent (send_handler c me t s) = edgesSent s + 1"
  by (simp_all add: send_handler_def Let_def)

lemma send_handler_out:
  "edgeOut (send_handler c me t s) d =
     (if d = neighbourList c me ! edgesSent s then (edgeOut s d)[0 := mk_tag d t] else edgeOut s d)"
  by (simp add: send_handler_def Let_def)

lemma send_handler_sent:
  "sent (send_handler c me t s) =
     sent s @ [(neighbour c me (neighbourList c me ! edgesSent s),
                (edgeOut s (neighbourList c me ! edgesSent s))
                  [0 := mk_tag (neighbourList c me ! edgesSent s) t])]"
  by (simp add: send_handler_def Let_def)

lemma recv_handler_current:
  assumes "dir_of (tag_dir (m ! 0)) = Some d" and "tag_phase (m ! 0) = phase t"
  shows "recv_handler t m s =
    Inr (s\<lparr>received := received s @ [(t, m)], edgeIn := (edgeIn s)(d := m),
           edgesReceived := edgesReceived s + 1\<rparr>)"
  using assms by (simp add: recv_handler_def)

lemma recv_handler_early:
  assumes "dir_of (tag_dir (m ! 0)) = Some d" and "tag_phase (m ! 0) \<noteq> phase t"
  shows "recv_handler t m s =
    Inr (s\<lparr>received := received s @ [(t, m)], edgeInBuffer := (edgeInBuffer s)(d := Some m)\<rparr>)"
  using assms by (simp add: recv_handler_def)

lemma recv_handler_bad:
  assumes "dir_of (tag_dir (m ! 0)) = None"
  shows "recv_handler t m s = Inl BadIndex"
  using assms by (simp add: recv_handler_def)

lemma handle_event_recv:
  assumes "canRecv ev = Some m"
  shows "handle_event c me t ev s =
     recv_handler t m (if needToSend c me s \<and> canSend ev then send_handler c me t s else s)"
  using assms by (simp add: handle_event_def)

lemma handle_event_no_recv:
  assumes "canRecv ev = None"
  shows "handle_event c me t ev s =
     Inr (if needToSend c me s \<and> canSend ev then send_handler c me t s else s)"
  using assms by (simp add: handle_event_def)

text \<open>
  C1.  In a pass through the exchange loop of step \<open>t\<close> in which a message \<open>m\<close> is received whose
  tag names direction \<open>d\<close>: if the phase bit of the tag equals \<open>t & 1\<close>, the message becomes the
  incoming edge of direction \<open>d\<close> and the count of received edges grows by one, the buffer staying
  as it is; otherwise the message is stored in \<open>edgeInBuffer[d]\<close>, and the count and the incoming
  edges stay as they are.
\<close>

theorem receive_by_phase:
  assumes "canRecv ev = Some m" and "dir_of (tag_dir (m ! 0)) = Some d"
  shows "\<exists>s'. handle_event c me t ev s = Inr s' \<and>
          (if tag_phase (m ! 0) = phase t
           then edgeIn s' = (edgeIn s)(d := m)
                \<and> edgesReceived s' = edgesReceived s + 1
                \<and> edgeInBuffer s' = edgeInBuffer s
           else edgeInBuffer s' = (edgeInBuffer s)(d := Some m)
                \<and> edgesReceived s' = edgesReceived s
                \<and> edgeIn s' = edgeIn s)"
proof (cases "tag_phase (m ! 0) = phase t")
  case True
  show ?thesis
    unfolding handle_event_recv [OF assms(1)] recv_handler_current [OF assms(2) True]
    using True by (simp add: send_handler_frame)
next
  case False
  show ?thesis
    unfolding handle_event_recv [OF assms(1)] recv_handler_early [OF assms(2) False]
    using False by (simp add: send_handler_frame)
qed


theorem receive_by_phase_witness:
  "(\<exists>s'. handle_event cfg22 0 0 (CanSendRecv [2, 7, 7, 7]) corner = Inr s'
         \<and> edgeIn s' S = [2, 7, 7, 7] \<and> edgesReceived s' = 1 \<and> edgeInBuffer s' S = None)
   \<and> (\<exists>s'. handle_event cfg22 0 0 (CanRecv [3, 7, 7, 7]) corner = Inr s'
         \<and> edgeInBuffer s' S = Some [3, 7, 7, 7] \<and> edgesReceived s' = 0)"
proof
  have 1: "canRecv (CanSendRecv [2, 7, 7, 7]) = Some [2, 7, 7, 7]" by simp
  have 2: "dir_of (tag_dir ([2, 7, 7, 7] ! 0)) = Some S" by code_simp
  have 3: "tag_phase ([2, 7, 7, 7] ! 0) = phase 0" by code_simp
  have 4: "edgesReceived corner = 0" "edgeInBuffer corner S = None" by code_simp+
  from receive_by_phase [OF 1 2, of cfg22 0 0 corner]
  obtain s' where "handle_event cfg22 0 0 (CanSendRecv [2, 7, 7, 7]) corner = Inr s'"
    and "edgeIn s' = (edgeIn corner)(S := [2, 7, 7, 7])"
    and "edgesReceived s' = edgesReceived corner + 1"
    and "edgeInBuffer s' = edgeInBuffer corner"
    unfolding 3 by auto
  then show "\<exists>s'. handle_event cfg22 0 0 (CanSendRecv [2, 7, 7, 7]) corner = Inr s'
         \<and> edgeIn s' S = [2, 7, 7, 7] \<and> edgesReceived s' = 1 \<and> edgeInBuffer s' S = None"
    using 4 by simp
next
  have 1: "canRecv (CanRecv [3, 7, 7, 7]) = Some [3, 7, 7, 7]" by simp
  have 2: "dir_of (tag_dir ([3, 7, 7, 7] ! 0)) = Some S" by code_simp
  have 3: "tag_phase ([3, 7, 7, 7] ! 0) \<noteq> phase 0" by code_simp
  have 4: "edgesReceived corner = 0" by code_simp
  from receive_by_phase [OF 1 2, of cfg22 0 0 corner]
  obtain s' where "handle_event cfg22 0 0 (CanRecv [3, 7, 7, 7]) corner = Inr s'"
    and "edgeInBuffer s' = (edgeInBuffer corner)(S := Some [3, 7, 7, 7])"
    and "edgesReceived s' = edgesReceived corner"
    using 3 by auto
  then show "\<exists>s'. handle_event cfg22 0 0 (CanRecv [3, 7, 7, 7]) corner = Inr s'
         \<and> edgeInBuffer s' S = Some [3, 7, 7, 7] \<and> edgesReceived s' = 0"
    using 4 by simp
qed

subsection \<open>What the exchange loop sends\<close>

lemma recv_handler_frame:
  assumes "recv_handler t m s = Inr s'"
  shows "subgrid s' = subgrid s" "newSubgrid s' = newSubgrid s" "edgeOut s' = edgeOut s"
    "edgesSent s' = edgesSent s" "sent s' = sent s"
  using assms by (auto simp: recv_handler_def Let_def split: option.splits if_splits)

lemma handle_event_grids:
  assumes "handle_event c me t ev s = Inr s'"
  shows "subgrid s' = subgrid s" "newSubgrid s' = newSubgrid s"
  using assms
  by (auto simp: handle_event_def Let_def send_handler_frame split: option.splits if_splits
      dest: recv_handler_frame)

lemma handle_event_send:
  assumes "handle_event c me t ev s = Inr s'" and "needToSend c me s \<and> canSend ev"
  shows "edgesSent s' = edgesSent s + 1"
    "edgeOut s' d = (if d = neighbourList c me ! edgesSent s
                     then (edgeOut s d)[0 := mk_tag d t] else edgeOut s d)"
    "sent s' = sent s @ [(neighbour c me (neighbourList c me ! edgesSent s),
                (edgeOut s (neighbourList c me ! edgesSent s))
                  [0 := mk_tag (neighbourList c me ! edgesSent s) t])]"
  using assms
  by (auto simp: handle_event_def Let_def send_handler_frame send_handler_out send_handler_sent
      split: option.splits dest: recv_handler_frame)

lemma handle_event_no_send:
  assumes "handle_event c me t ev s = Inr s'" and "\<not> (needToSend c me s \<and> canSend ev)"
  shows "edgesSent s' = edgesSent s" "edgeOut s' = edgeOut s" "sent s' = sent s"
  using assms
  by (auto simp: handle_event_def Let_def split: option.splits dest: recv_handler_frame)

lemma handle_event_out_body:
  assumes "handle_event c me t ev s = Inr s'"
  shows "(edgeOut s' d)[0 := x] = (edgeOut s d)[0 := x]"
proof (cases "needToSend c me s \<and> canSend ev")
  case True
  show ?thesis
    unfolding handle_event_send(2) [OF assms True] by simp
next
  case False
  show ?thesis
    unfolding handle_event_no_send(2) [OF assms False] by simp
qed

lemma exchange_grids:
  assumes "exchange c me t evs s = Inr (s', rest)"
  shows "subgrid s' = subgrid s \<and> newSubgrid s' = newSubgrid s"
  using assms
proof (induction evs arbitrary: s)
  case Nil
  then show ?case by (simp split: if_splits)
next
  case (Cons ev evs)
  show ?case
  proof (cases "\<not> needToSend c me s \<and> \<not> needToRecv c me s")
    case True
    with Cons.prems show ?thesis by simp
  next
    case False
    with Cons.prems obtain s1 where h: "handle_event c me t ev s = Inr s1"
      and run: "exchange c me t evs s1 = Inr (s', rest)"
      by (auto split: sum.splits)
    from Cons.IH [OF run] handle_event_grids [OF h] show ?thesis by simp
  qed
qed

lemma exchange_sent:
  assumes "exchange c me t evs s = Inr (s', rest)"
  shows "sent s' = sent s @ map (\<lambda>d. (neighbour c me d, (edgeOut s d)[0 := mk_tag d t]))
                             (drop (edgesSent s) (neighbourList c me))"
  using assms
proof (induction evs arbitrary: s)
  case Nil
  then show ?case
    by (simp add: needToSend_def numNeighbours_def split: if_splits)
next
  case (Cons ev evs)
  show ?case
  proof (cases "\<not> needToSend c me s \<and> \<not> needToRecv c me s")
    case True
    with Cons.prems show ?thesis
      by (simp add: needToSend_def numNeighbours_def)
  next
    case False
    with Cons.prems obtain s1 where h: "handle_event c me t ev s = Inr s1"
      and run: "exchange c me t evs s1 = Inr (s', rest)"
      by (auto split: sum.splits)
    note IH = Cons.IH [OF run]
    have body: "(\<lambda>d. (neighbour c me d, (edgeOut s1 d)[0 := mk_tag d t]))
        = (\<lambda>d. (neighbour c me d, (edgeOut s d)[0 := mk_tag d t]))"
      by (simp only: handle_event_out_body [OF h])
    show ?thesis
    proof (cases "needToSend c me s \<and> canSend ev")
      case True
      then have lt: "edgesSent s < length (neighbourList c me)"
        by (simp add: needToSend_def numNeighbours_def)
      have d: "drop (edgesSent s) (neighbourList c me)
          = neighbourList c me ! edgesSent s # drop (Suc (edgesSent s)) (neighbourList c me)"
        by (rule Cons_nth_drop_Suc [OF lt, symmetric])
      show ?thesis
        unfolding IH body handle_event_send(1,3) [OF h True] by (simp add: d)
    next
      case noSend: False
      show ?thesis
        unfolding IH body handle_event_no_send(1,3) [OF h noSend] by simp
    qed
  qed
qed

lemma tagged_slot: "slot_ok c m \<Longrightarrow> m[0 := w] = w # tl m"
  by (cases m) (simp_all add: slot_ok_def)

lemma time_step_sent:
  assumes run: "time_step c me t evs s = Inr (s', rest)"
    and grid: "grid_ok c (newSubgrid s)" and slots: "\<forall>d. slot_ok c (edgeOut s d)"
  shows "sent s' = sent s @ map (\<lambda>d. (neighbour c me d, mk_tag d t # edge_of c (subgrid s') d))
                             (neighbourList c me)"
    and "subgrid s' = newSubgrid (update_state c s)"
proof -
  let ?u = "update_state c s"
  from run obtain s1 where ex: "exchange c me t evs (begin_exchange ?u) = Inr (s1, rest)"
    and s': "s' = switch_buffers s1"
    by (auto simp: time_step_def split: sum.splits)
  have new: "newSubgrid s1 = newSubgrid ?u"
    using exchange_grids [OF ex] by (simp add: begin_exchange_frame)
  then show sub: "subgrid s' = newSubgrid ?u"
    by (simp add: s' switch_buffers_def)
  have slot: "slot_ok c (edgeOut ?u d)" for d
    using slots by (simp add: slot_ok_def update_state_out_length)
  have "(edgeOut ?u d)[0 := mk_tag d t] = mk_tag d t # edge_of c (subgrid s') d" for d
    unfolding tagged_slot [OF slot] sub
    using update_state_edge [OF grid slots [rule_format]] by simp
  then show "sent s' = sent s @ map (\<lambda>d. (neighbour c me d, mk_tag d t # edge_of c (subgrid s') d))
                             (neighbourList c me)"
    using exchange_sent [OF ex]
    by (simp add: s' switch_buffers_def begin_exchange_frame update_state_frame)
qed

text \<open>
  C7.  The send handler writes the tag \<open>(opposite d << 1) | (t & 1)\<close> into word 0 of the
  outgoing edge of the next direction \<open>d\<close> of \<open>neighbourList\<close> and transmits that slot to
  \<open>neighbour[d]\<close>.  Over a whole step \<open>t\<close> that the thread completes, the messages sent are, for
  the directions of \<open>neighbourList\<close> in order, the tag followed by the \<open>L\<close> temperatures that the
  update of this step has computed for the cells along side \<open>d\<close> of the subgrid.
\<close>

theorem boundary_messages:
  assumes "time_step c me t evs s = Inr (s', rest)"
    and "grid_ok c (newSubgrid s)"
    and "\<forall>d. slot_ok c (edgeOut s d)"
  shows
    "sent s' = sent s @ map (\<lambda>d. (neighbour c me d, mk_tag d t # edge_of c (subgrid s') d))
                          (neighbourList c me)
     \<and> subgrid s' = newSubgrid (update_state c s)
     \<and> length (edge_of c (subgrid s') d) = L c
     \<and> mk_tag d t = push_bit 1 (dir_val (opposite d)) OR (of_nat t AND 1)
     \<and> (slot_ok c (edgeOut u (neighbourList c me ! edgesSent u)) \<longrightarrow>
          sent (send_handler c me t u) =
            sent u @ [(neighbour c me (neighbourList c me ! edgesSent u),
                       mk_tag (neighbourList c me ! edgesSent u) t
                         # tl (edgeOut u (neighbourList c me ! edgesSent u)))])"
proof (intro conjI impI)
  show "sent s' = sent s @ map (\<lambda>d. (neighbour c me d, mk_tag d t # edge_of c (subgrid s') d))
                          (neighbourList c me)"
    using assms by (rule time_step_sent)
  show "subgrid s' = newSubgrid (update_state c s)"
    using assms by (rule time_step_sent)
  show "length (edge_of c (subgrid s') d) = L c"
    by (simp add: edge_of_def)
  show "mk_tag d t = push_bit 1 (dir_val (opposite d)) OR (of_nat t AND 1)"
    by (simp only: mk_tag_def phase_def)
  show "sent (send_handler c me t u) =
            sent u @ [(neighbour c me (neighbourList c me ! edgesSent u),
                       mk_tag (neighbourList c me ! edgesSent u) t
                         # tl (edgeOut u (neighbourList c me ! edgesSent u)))]"
    if "slot_ok c (edgeOut u (neighbourList c me ! edgesSent u))"
    unfolding send_handler_sent tagged_slot [OF that] ..
qed

theorem boundary_messages_witness:
  "\<exists>s' rest. time_step cfg22 0 0 arrivals0 corner = Inr (s', rest)
     \<and> sent s' = [(2, [0, 4177920, 0, 0]), (1, [6, 4177920, 0, 0])]"
proof -
  have "\<not> isl (time_step cfg22 0 0 arrivals0 corner)" by code_simp
  then obtain s' rest where run: "time_step cfg22 0 0 arrivals0 corner = Inr (s', rest)"
    by (cases "time_step cfg22 0 0 arrivals0 corner") auto
  have 1: "grid_ok cfg22 (newSubgrid corner)" by code_simp
  have 2: "\<forall>d. slot_ok cfg22 (edgeOut corner d)"
  proof
    fix d show "slot_ok cfg22 (edgeOut corner d)" by (cases d; code_simp)
  qed
  have "subgrid (fst (projr (time_step cfg22 0 0 arrivals0 corner)))
      = [[8355840, 4177920, 4177920], [4177920, 0, 0], [4177920, 0, 0]]"
    by code_simp
  then have g: "subgrid s' = [[8355840, 4177920, 4177920], [4177920, 0, 0], [4177920, 0, 0]]"
    unfolding run by simp
  have v: "sent corner = []" "neighbourList cfg22 0 = [S, E]"
    "neighbour cfg22 0 S = 2" "neighbour cfg22 0 E = 1"
    "mk_tag S 0 = 0" "mk_tag E 0 = 6"
    "edge_of cfg22 [[8355840, 4177920, 4177920], [4177920, 0, 0], [4177920, 0, 0]] S = [4177920, 0, 0]"
    "edge_of cfg22 [[8355840, 4177920, 4177920], [4177920, 0, 0], [4177920, 0, 0]] E = [4177920, 0, 0]"
    by code_simp+
  from boundary_messages [OF run 1 2]
  have "sent s' = sent corner @ map (\<lambda>d. (neighbour cfg22 0 d, mk_tag d 0 # edge_of cfg22 (subgrid s') d))
                          (neighbourList cfg22 0)"
    by (rule conjunct1)
  then have "sent s' = [(2, [0, 4177920, 0, 0]), (1, [6, 4177920, 0, 0])]"
    unfolding g by (simp only: v list.map append_Nil)
  with run show ?thesis by blast
qed

subsection \<open>The subgrid after a time step\<close>

lemma time_step_subgrid:
  assumes "time_step c me t evs s = Inr (s', rest)"
  shows "subgrid s' = newSubgrid (update_state c s)"
proof -
  from assms obtain s1 where ex: "exchange c me t evs (begin_exchange (update_state c s)) = Inr (s1, rest)"
    and s': "s' = switch_buffers s1"
    by (auto simp: time_step_def split: sum.splits)
  from exchange_grids [OF ex] show ?thesis
    by (simp add: s' switch_buffers_def begin_exchange_frame)
qed

text \<open>
  C4.  For every cell \<open>(y, x)\<close> of the \<open>L\<close> by \<open>L\<close> subgrid, the value that the update writes
  to \<open>newSubgrid[y][x]\<close> is \<open>(left + right + above + below) >> 2\<close> of the four values around
  the cell, each read from the current subgrid or, on a side where the cell is on the rim, from
  the incoming edge of that side.  As a signed number it is the sum (as a 32-bit \<open>int\<close>)
  divided by 4 and rounded down; nothing else enters.  It is the value of the cell in the
  current subgrid after a time step that the thread completes.
\<close>

theorem stencil_average:
  assumes "grid_ok c (newSubgrid s)" and "y < L c" and "x < L c"
  shows
    "let left = (if x = 0 then edgeIn s W ! (y + 1) else subgrid s ! y ! (x - 1));
         right = (if x = L c - 1 then edgeIn s E ! (y + 1) else subgrid s ! y ! (x + 1));
         above = (if y = 0 then edgeIn s N ! (x + 1) else subgrid s ! (y - 1) ! x);
         below = (if y = L c - 1 then edgeIn s S ! (x + 1) else subgrid s ! (y + 1) ! x);
         new = newSubgrid (update_state c s) ! y ! x
     in new = signed_drop_bit 2 (left + right + above + below)
        \<and> sint new = sint (left + right + above + below) div 4
        \<and> (time_step c me t evs s = Inr (s', rest) \<longrightarrow> subgrid s' ! y ! x = new)"
proof -
  have "newSubgrid (update_state c s) ! y ! x = surroundings c (edgeIn s) (subgrid s) y x"
    using assms by (simp only: update_state_new newTemp_surroundings)
  moreover have "subgrid s' = newSubgrid (update_state c s)"
    if "time_step c me t evs s = Inr (s', rest)"
    using that by (rule time_step_subgrid)
  ultimately show ?thesis
    by (simp add: surroundings_def Let_def sint_shift2 add_ac)
qed

theorem stencil_average_witness:
  "grid_ok cfg22 (newSubgrid corner)
   \<and> newSubgrid (update_state cfg22 corner) ! 0 ! 0 = signed_drop_bit 2 (16711680 + 0 + 16711680 + 0)
   \<and> sint (newSubgrid (update_state cfg22 corner) ! 0 ! 0) = 8355840"
proof -
  have 1: "grid_ok cfg22 (newSubgrid corner)" by code_simp
  have 2: "0 < L cfg22" by code_simp
  have e: "edgeIn corner W ! (0 + 1) = 16711680" "edgeIn corner N ! (0 + 1) = 16711680"
    "subgrid corner ! 0 ! (0 + 1) = 0" "subgrid corner ! (0 + 1) ! 0 = 0" "L cfg22 - 1 = 2"
    by code_simp+
  from stencil_average [OF 1 2 2, of 0 0 "[]" corner "[]"] show ?thesis
    unfolding Let_def e using 1 by simp
qed

section \<open>The exchange under bounded skew\<close>

subsection \<open>Histories\<close>

lemma from_dir_append: "from_dir d (h @ x) = from_dir d h @ from_dir d x"
  by (simp add: from_dir_def)

lemma from_dir_single:
  "from_dir d [(t, m)] = (if msg_dir m = Some d then [(t, m)] else [])"
  by (simp add: from_dir_def)

lemma all_dirs: "list_all P [N, S, E, W] \<longleftrightarrow> (\<forall>d. P d)"
proof
  assume "list_all P [N, S, E, W]"
  then show "\<forall>d. P d" by (auto intro: Dir.exhaust [of _ "P _"] simp: ) (metis Dir.exhaust)
next
  assume "\<forall>d. P d"
  then show "list_all P [N, S, E, W]" by simp
qed

lemma bounded_skew_iff:
  "bounded_skew c me h \<longleftrightarrow>
     (\<forall>p \<in> set h. msg_dir (snd p) \<noteq> None)
     \<and> (\<forall>d. (d \<in> set (neighbourList c me) \<or> from_dir d h = [])
             \<and> (\<forall>k < length (from_dir d h).
                   tag_phase (snd (from_dir d h ! k) ! 0) = phase k
                   \<and> k \<le> fst (from_dir d h ! k) + 1))"
proof -
  have A: "list_all (\<lambda>p. msg_dir (snd p) \<noteq> None) h \<longleftrightarrow> (\<forall>p \<in> set h. msg_dir (snd p) \<noteq> None)"
    by (simp only: list_all_iff)
  have B: "list_all on_time (enumerate 0 xs) \<longleftrightarrow>
      (\<forall>k < length xs. tag_phase (snd (xs ! k) ! 0) = phase k \<and> k \<le> fst (xs ! k) + 1)" for xs
    by (simp add: list_all_length nth_enumerate_eq on_time_def case_prod_beta)
  show ?thesis
    unfolding bounded_skew_def all_dirs A B ..
qed

lemma bounded_skew_prefix:
  assumes "bounded_skew c me (h @ x)"
  shows "bounded_skew c me h"
  unfolding bounded_skew_iff
proof (intro conjI allI ballI impI)
  fix p assume "p \<in> set h"
  with assms show "msg_dir (snd p) \<noteq> None"
    by (simp add: bounded_skew_iff)
next
  fix d
  from assms show "d \<in> set (neighbourList c me) \<or> from_dir d h = []"
    by (auto simp: bounded_skew_iff from_dir_append)
next
  fix d k assume k: "k < length (from_dir d h)"
  then have "k < length (from_dir d (h @ x))"
    by (simp add: from_dir_append)
  with assms have "tag_phase (snd (from_dir d (h @ x) ! k) ! 0) = phase k
      \<and> k \<le> fst (from_dir d (h @ x) ! k) + 1"
    by (simp add: bounded_skew_iff)
  with k show "tag_phase (snd (from_dir d h ! k) ! 0) = phase k"
    and "k \<le> fst (from_dir d h ! k) + 1"
    by (simp_all add: from_dir_append nth_append)
qed

lemma bounded_skew_last:
  assumes "bounded_skew c me (h @ [(t, m)])"
  shows "\<exists>d. msg_dir m = Some d \<and> d \<in> set (neighbourList c me)
             \<and> tag_phase (m ! 0) = phase (length (from_dir d h))
             \<and> length (from_dir d h) \<le> t + 1"
proof -
  from assms have "msg_dir m \<noteq> None"
    by (simp add: bounded_skew_iff)
  then obtain d where d: "msg_dir m = Some d" by auto
  then have f: "from_dir d (h @ [(t, m)]) = from_dir d h @ [(t, m)]"
    by (simp add: from_dir_append from_dir_single)
  from assms f have "d \<in> set (neighbourList c me)"
    by (auto simp: bounded_skew_iff)
  moreover from assms have "\<forall>k < length (from_dir d (h @ [(t, m)])).
        tag_phase (snd (from_dir d (h @ [(t, m)]) ! k) ! 0) = phase k
      \<and> k \<le> fst (from_dir d (h @ [(t, m)]) ! k) + 1"
    unfolding bounded_skew_iff by blast
  then have "tag_phase (snd ((from_dir d h @ [(t, m)]) ! length (from_dir d h)) ! 0)
        = phase (length (from_dir d h))
      \<and> length (from_dir d h) \<le> fst ((from_dir d h @ [(t, m)]) ! length (from_dir d h)) + 1"
    unfolding f by (elim allE [of _ "length (from_dir d h)"]) simp
  ultimately show ?thesis
    using d by simp
qed

lemma phase_Suc: "phase (Suc t) \<noteq> phase t"
  by (simp add: phase_of_bool)

subsection \<open>One pass through the exchange loop\<close>

lemma handle_event_quiet:
  assumes "canRecv ev = None" and "handle_event c me t ev s = Inr s'"
  shows "received s' = received s" "edgeIn s' = edgeIn s" "edgeInBuffer s' = edgeInBuffer s"
    "edgesReceived s' = edgesReceived s"
  using assms by (auto simp: handle_event_no_recv send_handler_frame split: if_splits)

lemma handle_event_msg:
  assumes "canRecv ev = Some m" and "handle_event c me t ev s = Inr s'"
  shows "\<exists>d. msg_dir m = Some d \<and> received s' = received s @ [(t, m)]
          \<and> (if tag_phase (m ! 0) = phase t
              then edgeIn s' = (edgeIn s)(d := m)
                   \<and> edgesReceived s' = edgesReceived s + 1
                   \<and> edgeInBuffer s' = edgeInBuffer s
              else edgeInBuffer s' = (edgeInBuffer s)(d := Some m)
                   \<and> edgesReceived s' = edgesReceived s
                   \<and> edgeIn s' = edgeIn s)"
proof (cases "msg_dir m")
  case None
  with assms show ?thesis
    by (simp add: handle_event_recv recv_handler_bad msg_dir_def)
next
  case (Some d)
  then have d: "dir_of (tag_dir (m ! 0)) = Some d" by (simp add: msg_dir_def)
  show ?thesis
  proof (cases "tag_phase (m ! 0) = phase t")
    case True
    with assms Some show ?thesis
      unfolding handle_event_recv [OF assms(1)] recv_handler_current [OF d True]
      by (auto simp: send_handler_frame)
  next
    case False
    with assms Some show ?thesis
      unfolding handle_event_recv [OF assms(1)] recv_handler_early [OF d False]
      by (auto simp: send_handler_frame)
  qed
qed

lemma rcvd_append:
  "received s' = received s @ [(t, m)] \<Longrightarrow>
   rcvd d s' = rcvd d s + (if msg_dir m = Some d then 1 else 0)"
  by (simp add: rcvd_def from_dir_append from_dir_single)

lemma chan_append:
  "received s' = received s @ [(t, m)] \<Longrightarrow>
   chan d s' = chan d s @ (if msg_dir m = Some d then [m] else [])"
  by (simp add: chan_def from_dir_append from_dir_single)

lemma length_chan: "length (chan d s) = rcvd d s"
  by (simp add: chan_def rcvd_def)

lemma count_one_more:
  assumes "distinct xs" and "a \<in> set xs" and "\<not> P a" and "Q a"
    and "\<And>x. x \<noteq> a \<Longrightarrow> Q x = P x"
  shows "length (filter Q xs) = length (filter P xs) + 1"
  using assms(1,2)
proof (induction xs)
  case Nil
  then show ?case by simp
next
  case (Cons x xs)
  show ?case
  proof (cases "x = a")
    case True
    with Cons.prems have "a \<notin> set xs" by simp
    then have "Q x = P x" if "x \<in> set xs" for x
      using that assms(5) [of x] by (cases "x = a") simp_all
    then have "filter Q xs = filter P xs"
      by (intro filter_cong) simp_all
    with True assms(3,4) show ?thesis by simp
  next
    case False
    with Cons have "length (filter Q xs) = length (filter P xs) + 1" by simp
    with False assms(5) [of x] show ?thesis by simp
  qed
qed

lemma distinct_neighbourList: "distinct (neighbourList c me)"
  by (simp add: neighbourList_def)

lemma in_exchangeI:
  assumes "\<And>d. d \<in> set (neighbourList c me) \<Longrightarrow> t \<le> rcvd d s \<and> rcvd d s \<le> t + 2"
    and "\<And>d. d \<notin> set (neighbourList c me) \<Longrightarrow> rcvd d s = 0"
    and "\<And>d. edgeInBuffer s d = (if rcvd d s = t + 2 then Some (chan d s ! (t + 1)) else None)"
    and "\<And>d. t < rcvd d s \<Longrightarrow> edgeIn s d = chan d s ! t"
    and "edgesReceived s = length (filter (\<lambda>d. t < rcvd d s) (neighbourList c me))"
  shows "in_exchange c me t s"
  unfolding in_exchange_def using assms by simp

lemma in_exchangeD:
  assumes "in_exchange c me t s"
  shows "d \<in> set (neighbourList c me) \<Longrightarrow> t \<le> rcvd d s \<and> rcvd d s \<le> t + 2"
    and "d \<notin> set (neighbourList c me) \<Longrightarrow> rcvd d s = 0"
    and "edgeInBuffer s d = (if rcvd d s = t + 2 then Some (chan d s ! (t + 1)) else None)"
    and "t < rcvd d s \<Longrightarrow> edgeIn s d = chan d s ! t"
    and "edgesReceived s = length (filter (\<lambda>d. t < rcvd d s) (neighbourList c me))"
  using assms unfolding in_exchange_def by (auto split: if_splits)


lemma pass_in_exchange:
  assumes inv: "in_exchange c me t s"
    and h: "handle_event c me t ev s = Inr s'"
    and skew: "bounded_skew c me (received s')"
  shows "in_exchange c me t s'"
proof (cases "canRecv ev")
  case None
  note q = handle_event_quiet [OF None h]
  have eq: "rcvd d s' = rcvd d s" "chan d s' = chan d s" for d
    by (simp_all add: rcvd_def chan_def q)
  note I = in_exchangeD [OF inv]
  show ?thesis
  proof (rule in_exchangeI)
    fix d
    show "t \<le> rcvd d s' \<and> rcvd d s' \<le> t + 2" if "d \<in> set (neighbourList c me)"
      using I(1) [OF that] by (simp only: eq)
    show "rcvd d s' = 0" if "d \<notin> set (neighbourList c me)"
      using I(2) [OF that] by (simp only: eq)
    show "edgeInBuffer s' d = (if rcvd d s' = t + 2 then Some (chan d s' ! (t + 1)) else None)"
      using I(3) [of d] by (simp only: eq q)
    show "edgeIn s' d = chan d s' ! t" if "t < rcvd d s'"
      using I(4) [of d] that by (simp only: eq q)
  next
    show "edgesReceived s' = length (filter (\<lambda>d. t < rcvd d s') (neighbourList c me))"
      using I(5) by (simp only: eq q)
  qed
next
  case (Some m)
  from handle_event_msg [OF Some h] obtain d0 where d0: "msg_dir m = Some d0"
    and hist: "received s' = received s @ [(t, m)]"
    and eff: "if tag_phase (m ! 0) = phase t
              then edgeIn s' = (edgeIn s)(d0 := m)
                   \<and> edgesReceived s' = edgesReceived s + 1
                   \<and> edgeInBuffer s' = edgeInBuffer s
              else edgeInBuffer s' = (edgeInBuffer s)(d0 := Some m)
                   \<and> edgesReceived s' = edgesReceived s
                   \<and> edgeIn s' = edgeIn s"
    by blast
  from bounded_skew_last [OF skew [unfolded hist]] d0
  have nb: "d0 \<in> set (neighbourList c me)"
    and ph: "tag_phase (m ! 0) = phase (rcvd d0 s)"
    and up: "rcvd d0 s \<le> t + 1"
    by (auto simp: rcvd_def)
  note I = in_exchangeD [OF inv]
  have low: "t \<le> rcvd d0 s" using I(1) [OF nb] by simp
  have r0: "rcvd d0 s' = rcvd d0 s + 1" and c0: "chan d0 s' = chan d0 s @ [m]"
    using d0 by (simp_all add: rcvd_append [OF hist] chan_append [OF hist])
  have r: "rcvd d s' = rcvd d s" and ch: "chan d s' = chan d s" if "d \<noteq> d0" for d
    using d0 that by (simp_all add: rcvd_append [OF hist] chan_append [OF hist])
  show ?thesis
  proof (cases "rcvd d0 s = t")
    case True
    with ph eff have e: "edgeIn s' = (edgeIn s)(d0 := m)"
      "edgesReceived s' = edgesReceived s + 1" "edgeInBuffer s' = edgeInBuffer s"
      by simp_all
    show ?thesis
    proof (rule in_exchangeI)
      fix d
      show "t \<le> rcvd d s' \<and> rcvd d s' \<le> t + 2" if "d \<in> set (neighbourList c me)"
        using I(1) [OF that] True r0 r [of d] by (cases "d = d0") simp_all
      show "rcvd d s' = 0" if "d \<notin> set (neighbourList c me)"
        using I(2) [OF that] that nb r [of d] by (cases "d = d0") simp_all
      show "edgeInBuffer s' d = (if rcvd d s' = t + 2 then Some (chan d s' ! (t + 1)) else None)"
        using I(3) [of d] True r0 r [of d] ch [of d] by (cases "d = d0") (simp_all add: e)
      show "edgeIn s' d = chan d s' ! t" if "t < rcvd d s'"
      proof (cases "d = d0")
        case d: True
        have "length (chan d0 s) = t" using True by (simp add: length_chan)
        then show ?thesis by (simp add: d e c0 nth_append)
      next
        case False
        with that I(4) [of d] show ?thesis by (simp add: e r ch)
      qed
    next
      have "length (filter (\<lambda>d. t < rcvd d s') (neighbourList c me))
          = length (filter (\<lambda>d. t < rcvd d s) (neighbourList c me)) + 1"
        using distinct_neighbourList nb
      proof (rule count_one_more)
        show "\<not> t < rcvd d0 s" using True by simp
        show "t < rcvd d0 s'" using True r0 by simp
        show "(t < rcvd x s') = (t < rcvd x s)" if "x \<noteq> d0" for x
          using r [OF that] by simp
      qed
      then show "edgesReceived s' = length (filter (\<lambda>d. t < rcvd d s') (neighbourList c me))"
        using I(5) e by simp
    qed
  next
    case False
    with low up have k: "rcvd d0 s = t + 1" by simp
    with ph eff phase_Suc [of t] have e: "edgeInBuffer s' = (edgeInBuffer s)(d0 := Some m)"
      "edgesReceived s' = edgesReceived s" "edgeIn s' = edgeIn s"
      by simp_all
    have len: "length (chan d0 s) = t + 1" using k by (simp add: length_chan)
    show ?thesis
    proof (rule in_exchangeI)
      fix d
      show "t \<le> rcvd d s' \<and> rcvd d s' \<le> t + 2" if "d \<in> set (neighbourList c me)"
        using I(1) [OF that] k r0 r [of d] by (cases "d = d0") simp_all
      show "rcvd d s' = 0" if "d \<notin> set (neighbourList c me)"
        using I(2) [OF that] that nb r [of d] by (cases "d = d0") simp_all
      show "edgeInBuffer s' d = (if rcvd d s' = t + 2 then Some (chan d s' ! (t + 1)) else None)"
        using I(3) [of d] k r0 r [of d] ch [of d] len
        by (cases "d = d0") (simp_all add: e c0 nth_append)
      show "edgeIn s' d = chan d s' ! t" if "t < rcvd d s'"
      proof (cases "d = d0")
        case True
        have "edgeIn s d0 = chan d0 s ! t" using I(4) [of d0] k by simp
        then show ?thesis using len by (simp add: True e c0 nth_append)
      next
        case False
        with that I(4) [of d] show ?thesis by (simp add: e r ch)
      qed
    next
      have "(t < rcvd d s') = (t < rcvd d s)" for d
        using k r0 r [of d] by (cases "d = d0") simp_all
      then show "edgesReceived s' = length (filter (\<lambda>d. t < rcvd d s') (neighbourList c me))"
        using I(5) e by simp
    qed
  qed
qed

subsection \<open>From step to step\<close>

lemma betweenD:
  assumes "between c me t s"
  shows "d \<in> set (neighbourList c me) \<Longrightarrow> t \<le> rcvd d s \<and> rcvd d s \<le> t + 1"
    and "d \<notin> set (neighbourList c me) \<Longrightarrow> rcvd d s = 0"
    and "edgeInBuffer s d = (if rcvd d s = t + 1 then Some (chan d s ! t) else None)"
  using assms unfolding between_def by (auto split: if_splits)

lemma initial_empty:
  "received (initial c me slot space) = []" "edgeInBuffer (initial c me slot space) d = None"
  by (simp_all add: initial_def Let_def)

lemma between_start:
  assumes "received s = []" and "\<forall>d. edgeInBuffer s d = None"
  shows "between c me 0 s"
  using assms by (simp add: between_def rcvd_def from_dir_def)

lemma switch_buffers_frame:
  "edgeIn (switch_buffers s) = edgeIn s"
  "edgeOut (switch_buffers s) = edgeOut s"
  "edgeInBuffer (switch_buffers s) = edgeInBuffer s"
  "edgesSent (switch_buffers s) = edgesSent s"
  "edgesReceived (switch_buffers s) = edgesReceived s"
  "sent (switch_buffers s) = sent s"
  "received (switch_buffers s) = received s"
  "subgrid (switch_buffers s) = newSubgrid s"
  "newSubgrid (switch_buffers s) = subgrid s"
  by (simp_all add: switch_buffers_def)

lemma begin_in_exchange:
  assumes "between c me t s"
  shows "in_exchange c me t (begin_exchange (update_state c s))"
proof -
  let ?b = "begin_exchange (update_state c s)"
  note B = betweenD [OF assms]
  have eq: "rcvd d ?b = rcvd d s" "chan d ?b = chan d s" for d
    by (simp_all add: rcvd_def chan_def begin_exchange_frame update_state_frame)
  have full: "rcvd d s = t + 1 \<longleftrightarrow> d \<in> set (neighbourList c me) \<and> t < rcvd d s" for d
    using B(1,2) [of d] by (cases "d \<in> set (neighbourList c me)") auto
  show ?thesis
  proof (rule in_exchangeI)
    fix d
    show "t \<le> rcvd d ?b \<and> rcvd d ?b \<le> t + 2" if "d \<in> set (neighbourList c me)"
      using B(1) [OF that] by (simp add: eq)
    show "rcvd d ?b = 0" if "d \<notin> set (neighbourList c me)"
      using B(2) [OF that] by (simp add: eq)
    show "edgeInBuffer ?b d = (if rcvd d ?b = t + 2 then Some (chan d ?b ! (t + 1)) else None)"
      using B(1,2) [of d]
      by (cases "d \<in> set (neighbourList c me)") (simp_all add: eq begin_exchange_buffer)
    show "edgeIn ?b d = chan d ?b ! t" if "t < rcvd d ?b"
    proof -
      from that B(1,2) [of d] have "rcvd d s = t + 1"
        by (cases "d \<in> set (neighbourList c me)") (simp_all add: eq)
      then show ?thesis
        using B(3) [of d] by (simp add: eq begin_exchange_edgeIn update_state_frame)
    qed
  next
    have "(edgeInBuffer s i \<noteq> None) = (0 \<le> sint (neighbour c me i) \<and> t < rcvd i s)" for i
      using B(3) [of i] full [of i] by (simp add: in_neighbourList)
    then have "filter (\<lambda>i. edgeInBuffer s i \<noteq> None) [N, S, E, W]
        = filter (\<lambda>d. t < rcvd d s) (neighbourList c me)"
      unfolding neighbourList_def filter_filter by (intro filter_cong) simp_all
    then show "edgesReceived ?b = length (filter (\<lambda>d. t < rcvd d ?b) (neighbourList c me))"
      by (simp only: eq begin_exchange_count update_state_frame)
  qed
qed

lemma filter_all:
  assumes "length xs \<le> length (filter P xs)"
  shows "\<forall>x \<in> set xs. P x"
  using assms
proof (induction xs)
  case Nil
  then show ?case by simp
next
  case (Cons x xs)
  have le: "length (filter P xs) \<le> length xs" by (rule length_filter_le)
  show ?case
  proof (cases "P x")
    case True
    with Cons.prems have "length xs \<le> length (filter P xs)" by simp
    then have "\<forall>x \<in> set xs. P x" by (rule Cons.IH)
    with True show ?thesis by simp
  next
    case False
    with Cons.prems have "Suc (length xs) \<le> length (filter P xs)" by simp
    with le have False by linarith
    then show ?thesis ..
  qed
qed

lemma exchange_complete:
  assumes "in_exchange c me t s" and "\<not> needToRecv c me s"
  shows "between c me (t + 1) (switch_buffers s)"
    and "d \<in> set (neighbourList c me) \<Longrightarrow> edgeIn s d = chan d s ! t"
proof -
  note I = in_exchangeD [OF assms(1)]
  from assms(2) have "length (neighbourList c me)
      \<le> length (filter (\<lambda>d. t < rcvd d s) (neighbourList c me))"
    by (simp add: needToRecv_def numNeighbours_def I(5))
  then have got: "\<forall>d \<in> set (neighbourList c me). t < rcvd d s"
    by (rule filter_all)
  show "edgeIn s d = chan d s ! t" if "d \<in> set (neighbourList c me)"
    using got that I(4) [of d] by simp
  have eq: "rcvd d (switch_buffers s) = rcvd d s" "chan d (switch_buffers s) = chan d s" for d
    by (simp_all add: rcvd_def chan_def switch_buffers_frame)
  show "between c me (t + 1) (switch_buffers s)"
    unfolding between_def
  proof (intro allI conjI)
    fix d
    show "if d \<in> set (neighbourList c me)
          then t + 1 \<le> rcvd d (switch_buffers s) \<and> rcvd d (switch_buffers s) \<le> t + 1 + 1
          else rcvd d (switch_buffers s) = 0"
      using I(1,2) [of d] got by (auto simp: eq)
    show "edgeInBuffer (switch_buffers s) d =
        (if rcvd d (switch_buffers s) = t + 1 + 1 then Some (chan d (switch_buffers s) ! (t + 1))
         else None)"
      using I(3) [of d] by (simp add: eq switch_buffers_frame)
  qed
qed

lemma handle_event_history:
  assumes "handle_event c me t ev s = Inr s'"
  shows "\<exists>x. received s' = received s @ x"
proof (cases "canRecv ev")
  case None
  from handle_event_quiet(1) [OF None assms] show ?thesis by simp
next
  case (Some m)
  from handle_event_msg [OF Some assms] show ?thesis by blast
qed

lemma reachable_in_exchange:
  assumes "reachable c me s0 t s" and "received s0 = []" and "\<forall>d. edgeInBuffer s0 d = None"
  shows "bounded_skew c me (received s) \<longrightarrow> in_exchange c me t s"
  using assms(1)
proof (induction rule: reachable.induct)
  case start
  show ?case
    using assms(2,3) by (intro impI begin_in_exchange between_start)
next
  case (pass t s ev s')
  show ?case
  proof
    assume skew: "bounded_skew c me (received s')"
    from handle_event_history [OF pass.hyps(3)] obtain x where "received s' = received s @ x" ..
    with skew have "bounded_skew c me (received s)"
      using bounded_skew_prefix [of c me "received s" x] by simp
    with pass.IH have "in_exchange c me t s" ..
    then show "in_exchange c me t s'"
      using pass.hyps(3) skew by (rule pass_in_exchange)
  qed
next
  case (next_step t s)
  show ?case
  proof
    assume "bounded_skew c me (received (begin_exchange (update_state c (switch_buffers s))))"
    then have "bounded_skew c me (received s)"
      by (simp add: begin_exchange_frame update_state_frame switch_buffers_frame)
    with next_step.IH have "in_exchange c me t s" ..
    then have "between c me (t + 1) (switch_buffers s)"
      using next_step.hyps(3) by (rule exchange_complete)
    then show "in_exchange c me (Suc t) (begin_exchange (update_state c (switch_buffers s)))"
      using begin_in_exchange by simp
  qed
qed

text \<open>
  C3.  Take any state that a thread, started with an empty history and empty buffers, can be in
  at the head of the exchange loop of a step \<open>t\<close>, with a history that respects the bounded skew.
  Of the messages received from a direction \<open>d\<close> at most one is for a later step than \<open>t\<close> (at
  most \<open>t + 2\<close> messages have come, one for each step up to \<open>t\<close> and one more); the slot
  \<open>edgeInBuffer[d]\<close> is occupied exactly when there is such a message, and then holds it.  If
  the next pass receives from \<open>d\<close> a message of the other phase and the history still respects
  the bounded skew, the slot was empty before: the message is stored without overwriting
  anything, and the count of received edges is not advanced.
\<close>

theorem one_pending_edge:
  assumes "reachable c me s0 t s"
    and "received s0 = []"
    and "\<forall>d. edgeInBuffer s0 d = None"
    and "bounded_skew c me (received s)"
  shows
    "length (from_dir d (received s)) \<le> t + 2
     \<and> (edgeInBuffer s d \<noteq> None) = (length (from_dir d (received s)) = t + 2)
     \<and> (length (from_dir d (received s)) = t + 2 \<longrightarrow>
          edgeInBuffer s d = Some (snd (from_dir d (received s) ! (t + 1))))
     \<and> (handle_event c me t ev s = Inr s' \<and> bounded_skew c me (received s')
          \<and> canRecv ev = Some m \<and> msg_dir m = Some d \<and> tag_phase (m ! 0) \<noteq> phase t \<longrightarrow>
          edgeInBuffer s d = None \<and> edgeInBuffer s' d = Some m
          \<and> edgesReceived s' = edgesReceived s)"
proof -
  have inv: "in_exchange c me t s"
    using reachable_in_exchange [OF assms(1-3)] assms(4) ..
  note I = in_exchangeD [OF inv]
  have bound: "rcvd d s \<le> t + 2"
    using I(1,2) [of d] by (cases "d \<in> set (neighbourList c me)") simp_all
  have buf: "edgeInBuffer s d = (if rcvd d s = t + 2 then Some (chan d s ! (t + 1)) else None)"
    by (rule I(3))
  have nth: "chan d s ! (t + 1) = snd (from_dir d (received s) ! (t + 1))" if "rcvd d s = t + 2"
    using that by (simp add: chan_def rcvd_def)
  have early: "edgeInBuffer s d = None \<and> edgeInBuffer s' d = Some m
      \<and> edgesReceived s' = edgesReceived s"
    if h: "handle_event c me t ev s = Inr s'" and skew: "bounded_skew c me (received s')"
      and ev: "canRecv ev = Some m" and d: "msg_dir m = Some d"
      and ph: "tag_phase (m ! 0) \<noteq> phase t"
  proof -
    from handle_event_msg [OF ev h] d ph
    have hist: "received s' = received s @ [(t, m)]"
      and eff: "edgeInBuffer s' = (edgeInBuffer s)(d := Some m)" "edgesReceived s' = edgesReceived s"
      by auto
    from bounded_skew_last [OF skew [unfolded hist]] d
    have "tag_phase (m ! 0) = phase (rcvd d s)" and "rcvd d s \<le> t + 1"
      by (auto simp: rcvd_def)
    then have "rcvd d s \<noteq> t + 2" by simp
    with buf eff show ?thesis by simp
  qed
  from bound buf nth early show ?thesis
    unfolding rcvd_def by (simp split: if_splits)
qed


theorem one_pending_edge_witness:
  "reachable cfg22 0 corner 0 after_south
   \<and> bounded_skew cfg22 0 (received after_south)
   \<and> length (from_dir S (received after_south)) = 1
   \<and> edgeInBuffer after_south S = None
   \<and> edgeInBuffer (projr (handle_event cfg22 0 0 (CanRecv [3, 4, 5, 6]) after_south)) S
       = Some [3, 4, 5, 6]
   \<and> edgesReceived (projr (handle_event cfg22 0 0 (CanRecv [3, 4, 5, 6]) after_south)) = 1"
proof -
  let ?b = "begin_exchange (update_state cfg22 corner)"
  let ?s' = "projr (handle_event cfg22 0 0 (CanRecv [3, 4, 5, 6]) after_south)"
  have "\<not> isl (handle_event cfg22 0 0 (CanRecv [2, 1, 2, 3]) ?b)" by code_simp
  then have h0: "handle_event cfg22 0 0 (CanRecv [2, 1, 2, 3]) ?b = Inr after_south"
    unfolding after_south_def by (simp add: sum.collapse(2))
  have need: "needToSend cfg22 0 ?b \<or> needToRecv cfg22 0 ?b" by code_simp
  have 1: "reachable cfg22 0 corner 0 after_south"
    using reachable.start need h0 by (rule reachable.pass)
  have 2: "received corner = []" by code_simp
  have 3: "\<forall>d. edgeInBuffer corner d = None"
    by (simp add: corner_def initial_def Let_def)
  have 4: "bounded_skew cfg22 0 (received after_south)" by code_simp
  have "\<not> isl (handle_event cfg22 0 0 (CanRecv [3, 4, 5, 6]) after_south)" by code_simp
  then have 5: "handle_event cfg22 0 0 (CanRecv [3, 4, 5, 6]) after_south = Inr ?s'"
    by (simp add: sum.collapse(2))
  have 6: "bounded_skew cfg22 0 (received ?s')" by code_simp
  have 7: "canRecv (CanRecv [3, 4, 5, 6]) = Some [3, 4, 5, 6]" by simp
  have 8: "msg_dir [3, 4, 5, 6] = Some S" by code_simp
  have 9: "tag_phase ([3, 4, 5, 6] ! 0) \<noteq> phase 0" by code_simp
  have 10: "length (from_dir S (received after_south)) = 1" "edgesReceived after_south = 1"
    by code_simp+
  note t = one_pending_edge [OF 1 2 3 4, of S "CanRecv [3, 4, 5, 6]" ?s' "[3, 4, 5, 6]"]
  from t have "handle_event cfg22 0 0 (CanRecv [3, 4, 5, 6]) after_south = Inr ?s'
        \<and> bounded_skew cfg22 0 (received ?s')
        \<and> canRecv (CanRecv [3, 4, 5, 6]) = Some [3, 4, 5, 6] \<and> msg_dir [3, 4, 5, 6] = Some S
        \<and> tag_phase ([3, 4, 5, 6] ! 0) \<noteq> phase 0 \<longrightarrow>
      edgeInBuffer after_south S = None \<and> edgeInBuffer ?s' S = Some [3, 4, 5, 6]
        \<and> edgesReceived ?s' = edgesReceived after_south"
    by (elim conjE)
  with 5 6 7 8 9 have "edgeInBuffer after_south S = None \<and> edgeInBuffer ?s' S = Some [3, 4, 5, 6]
        \<and> edgesReceived ?s' = edgesReceived after_south"
    by blast
  with 1 4 10 show ?thesis by simp
qed

section \<open>Independence of the order of arrival\<close>

subsection \<open>The core of a state\<close>

lemma core_fields:
  "subgrid (core s) = subgrid s" "newSubgrid (core s) = newSubgrid s"
  "edgeOut (core s) = edgeOut s" "edgeIn (core s) = edgeIn s" "sent (core s) = sent s"
  by (simp_all add: core_def)

lemma core_eqI:
  assumes "subgrid s = subgrid s'" "newSubgrid s = newSubgrid s'" "edgeOut s = edgeOut s'"
    "edgeIn s = edgeIn s'" "sent s = sent s'"
  shows "core s = core s'"
  using assms by (simp add: core_def)

lemma core_eqD:
  assumes "core s = core s'"
  shows "subgrid s = subgrid s'" "newSubgrid s = newSubgrid s'" "edgeOut s = edgeOut s'"
    "edgeIn s = edgeIn s'" "sent s = sent s'"
  using assms core_fields by metis+

lemma update_cell_core: "update_cell c y x (core s) = core (update_cell c y x s)"
  by (simp add: update_cell_def Let_def set_edge_def core_def)

lemma row_loop_core:
  "fold (update_cell c y) [0..<n] (core s) = core (fold (update_cell c y) [0..<n] s)"
  by (induction n) (simp_all add: update_cell_core)

lemma update_state_core: "update_state c (core s) = core (update_state c s)"
proof -
  have "fold (\<lambda>y. fold (update_cell c y) [0..<k]) [0..<m] (core s)
      = core (fold (\<lambda>y. fold (update_cell c y) [0..<k]) [0..<m] s)" for k m
    by (induction m) (simp_all add: row_loop_core)
  then show ?thesis by (simp add: update_state_def)
qed

lemma update_state_cong:
  assumes "core s = core s'"
  shows "core (update_state c s) = core (update_state c s')"
  using assms by (simp flip: update_state_core)

subsection \<open>What the exchange loop consumes\<close>

lemma messages_Cons:
  "messages (ev # evs) = (case canRecv ev of None \<Rightarrow> [] | Some m \<Rightarrow> [m]) @ messages evs"
  by (simp add: messages_def List.map_filter_simps split: option.splits)

lemma handle_event_received:
  assumes "handle_event c me t ev s = Inr s'"
  shows "map snd (received s') = map snd (received s) @ (case canRecv ev of None \<Rightarrow> [] | Some m \<Rightarrow> [m])"
proof (cases "canRecv ev")
  case None
  from handle_event_quiet(1) [OF None assms] None show ?thesis by simp
next
  case (Some m)
  from handle_event_msg [OF Some assms] Some show ?thesis by auto
qed

lemma exchange_received:
  assumes "exchange c me t evs s = Inr (s', rest)"
  shows "map snd (received s') @ messages rest = map snd (received s) @ messages evs"
    and "\<exists>x. received s' = received s @ x"
    and "\<not> needToSend c me s' \<and> \<not> needToRecv c me s'"
proof -
  have "(map snd (received s') @ messages rest = map snd (received s) @ messages evs)
      \<and> (\<exists>x. received s' = received s @ x)
      \<and> \<not> needToSend c me s' \<and> \<not> needToRecv c me s'"
    using assms
  proof (induction evs arbitrary: s)
    case Nil
    then show ?case by (simp split: if_splits)
  next
    case (Cons ev evs)
    show ?case
    proof (cases "\<not> needToSend c me s \<and> \<not> needToRecv c me s")
      case True
      with Cons.prems show ?thesis by simp
    next
      case False
      with Cons.prems obtain s1 where h: "handle_event c me t ev s = Inr s1"
        and run: "exchange c me t evs s1 = Inr (s', rest)"
        by (auto split: sum.splits)
      from handle_event_history [OF h] obtain x where x: "received s1 = received s @ x" ..
      from Cons.IH [OF run] obtain y where
        1: "map snd (received s') @ messages rest = map snd (received s1) @ messages evs"
        and y: "received s' = received s1 @ y"
        and 3: "\<not> needToSend c me s' \<and> \<not> needToRecv c me s'"
        by blast
      have "map snd (received s') @ messages rest = map snd (received s) @ messages (ev # evs)"
        unfolding 1 handle_event_received [OF h] messages_Cons by simp
      moreover have "received s' = received s @ (x @ y)"
        by (simp add: x y)
      ultimately show ?thesis using 3 by blast
    qed
  qed
  then show "map snd (received s') @ messages rest = map snd (received s) @ messages evs"
    and "\<exists>x. received s' = received s @ x"
    and "\<not> needToSend c me s' \<and> \<not> needToRecv c me s'"
    by blast+
qed

lemma exchange_in_exchange:
  assumes "exchange c me t evs s = Inr (s', rest)" and "in_exchange c me t s"
    and "bounded_skew c me (received s')"
  shows "in_exchange c me t s'"
  using assms
proof (induction evs arbitrary: s)
  case Nil
  then show ?case by (simp split: if_splits)
next
  case (Cons ev evs)
  show ?case
  proof (cases "\<not> needToSend c me s \<and> \<not> needToRecv c me s")
    case True
    with Cons.prems show ?thesis by simp
  next
    case False
    with Cons.prems obtain s1 where h: "handle_event c me t ev s = Inr s1"
      and run: "exchange c me t evs s1 = Inr (s', rest)"
      by (auto split: sum.splits)
    from exchange_received(2) [OF run] obtain x where "received s' = received s1 @ x" ..
    with Cons.prems(3) have skew1: "bounded_skew c me (received s1)"
      using bounded_skew_prefix [of c me "received s1" x] by simp
    have "in_exchange c me t s1"
      using Cons.prems(2) h skew1 by (rule pass_in_exchange)
    with run show ?thesis
      using Cons.prems(3) by (rule Cons.IH)
  qed
qed

lemma rcvd_mono: "received s' = received s @ x \<Longrightarrow> rcvd d s \<le> rcvd d s'"
  by (simp add: rcvd_def from_dir_append)

lemma chan_prefix:
  assumes "received s' = received s @ x" and "k < rcvd d s"
  shows "chan d s' ! k = chan d s ! k"
  using assms by (simp add: chan_def rcvd_def from_dir_append nth_append)

lemma handle_event_edgeIn_other:
  assumes "handle_event c me t ev s = Inr s'" and "rcvd d s' = rcvd d s"
  shows "edgeIn s' d = edgeIn s d"
proof (cases "canRecv ev")
  case None
  from handle_event_quiet(2) [OF None assms(1)] show ?thesis by simp
next
  case (Some m)
  from handle_event_msg [OF Some assms(1)] obtain d0 where d0: "msg_dir m = Some d0"
    and hist: "received s' = received s @ [(t, m)]"
    and eff: "edgeIn s' = (edgeIn s)(d0 := m) \<or> edgeIn s' = edgeIn s"
    by (auto split: if_splits)
  from assms(2) d0 have "d \<noteq> d0"
    by (auto simp: rcvd_append [OF hist])
  with eff show ?thesis by auto
qed

lemma exchange_edgeIn_other:
  assumes "exchange c me t evs s = Inr (s', rest)" and "rcvd d s' = rcvd d s"
  shows "edgeIn s' d = edgeIn s d"
  using assms
proof (induction evs arbitrary: s)
  case Nil
  then show ?case by (simp split: if_splits)
next
  case (Cons ev evs)
  show ?case
  proof (cases "\<not> needToSend c me s \<and> \<not> needToRecv c me s")
    case True
    with Cons.prems show ?thesis by simp
  next
    case False
    with Cons.prems obtain s1 where h: "handle_event c me t ev s = Inr s1"
      and run: "exchange c me t evs s1 = Inr (s', rest)"
      by (auto split: sum.splits)
    from handle_event_history [OF h] obtain x where "received s1 = received s @ x" ..
    then have 1: "rcvd d s \<le> rcvd d s1" by (rule rcvd_mono)
    from exchange_received(2) [OF run] obtain y where "received s' = received s1 @ y" ..
    then have 2: "rcvd d s1 \<le> rcvd d s'" by (rule rcvd_mono)
    from 1 2 Cons.prems(2) have eq: "rcvd d s1 = rcvd d s" "rcvd d s' = rcvd d s1" by simp_all
    from Cons.IH [OF run eq(2)] handle_event_edgeIn_other [OF h eq(1)] show ?thesis by simp
  qed
qed

lemma exchange_out:
  assumes "exchange c me t evs s = Inr (s', rest)"
  shows "edgeOut s' d =
     (if d \<in> set (drop (edgesSent s) (neighbourList c me)) then (edgeOut s d)[0 := mk_tag d t]
      else edgeOut s d)"
  using assms
proof (induction evs arbitrary: s)
  case Nil
  then show ?case
    by (simp add: needToSend_def numNeighbours_def split: if_splits)
next
  case (Cons ev evs)
  show ?case
  proof (cases "\<not> needToSend c me s \<and> \<not> needToRecv c me s")
    case True
    with Cons.prems show ?thesis
      by (simp add: needToSend_def numNeighbours_def)
  next
    case False
    with Cons.prems obtain s1 where h: "handle_event c me t ev s = Inr s1"
      and run: "exchange c me t evs s1 = Inr (s', rest)"
      by (auto split: sum.splits)
    note IH = Cons.IH [OF run, unfolded]
    show ?thesis
    proof (cases "needToSend c me s \<and> canSend ev")
      case True
      then have lt: "edgesSent s < length (neighbourList c me)"
        by (simp add: needToSend_def numNeighbours_def)
      have d: "drop (edgesSent s) (neighbourList c me)
          = neighbourList c me ! edgesSent s # drop (Suc (edgesSent s)) (neighbourList c me)"
        by (rule Cons_nth_drop_Suc [OF lt, symmetric])
      show ?thesis
        unfolding IH handle_event_send(1,2) [OF h True] d by simp
    next
      case noSend: False
      show ?thesis
        unfolding IH handle_event_no_send(1,2) [OF h noSend] by simp
    qed
  qed
qed

subsection \<open>One time step\<close>

lemma time_step_facts:
  assumes run: "time_step c me t evs s = Inr (s1, r)" and btw: "between c me t s"
    and skew: "bounded_skew c me (received s1)"
  shows "between c me (t + 1) s1"
    and "d \<in> set (neighbourList c me) \<Longrightarrow> t < rcvd d s1 \<and> edgeIn s1 d = chan d s1 ! t"
    and "d \<notin> set (neighbourList c me) \<Longrightarrow> edgeIn s1 d = edgeIn s d"
    and "subgrid s1 = newSubgrid (update_state c s)"
    and "newSubgrid s1 = subgrid s"
    and "edgeOut s1 d = (if d \<in> set (neighbourList c me)
           then (edgeOut (update_state c s) d)[0 := mk_tag d t] else edgeOut (update_state c s) d)"
    and "sent s1 = sent s @ map (\<lambda>d. (neighbour c me d, (edgeOut (update_state c s) d)[0 := mk_tag d t]))
           (neighbourList c me)"
    and "map snd (received s1) @ messages r = map snd (received s) @ messages evs"
    and "\<exists>x. received s1 = received s @ x"
proof -
  let ?u = "update_state c s"
  let ?b = "begin_exchange ?u"
  from run obtain e where ex: "exchange c me t evs ?b = Inr (e, r)"
    and s1: "s1 = switch_buffers e"
    by (auto simp: time_step_def split: sum.splits)
  have rb: "received ?b = received s"
    by (simp add: begin_exchange_frame update_state_frame)
  have skew_e: "bounded_skew c me (received e)"
    using skew by (simp add: s1 switch_buffers_frame)
  have inv_b: "in_exchange c me t ?b"
    using btw by (rule begin_in_exchange)
  have inv_e: "in_exchange c me t e"
    using ex inv_b skew_e by (rule exchange_in_exchange)
  have fin: "\<not> needToRecv c me e"
    using exchange_received(3) [OF ex] by simp
  have eq: "rcvd d s1 = rcvd d e" "chan d s1 = chan d e" for d
    by (simp_all add: rcvd_def chan_def s1 switch_buffers_frame)
  show b1: "between c me (t + 1) s1"
    unfolding s1 using inv_e fin by (rule exchange_complete)
  show "t < rcvd d s1 \<and> edgeIn s1 d = chan d s1 ! t" if "d \<in> set (neighbourList c me)"
    using betweenD(1) [OF b1 that] exchange_complete(2) [OF inv_e fin that]
    by (simp add: eq) (simp add: s1 switch_buffers_frame)
  show "edgeIn s1 d = edgeIn s d" if "d \<notin> set (neighbourList c me)"
  proof -
    have 0: "rcvd d s = 0" using betweenD(2) [OF btw that] .
    have "rcvd d e = rcvd d ?b"
      using in_exchangeD(2) [OF inv_e that] 0 by (simp add: rcvd_def rb)
    with ex have "edgeIn e d = edgeIn ?b d" by (rule exchange_edgeIn_other)
    moreover have "edgeInBuffer s d = None"
      using betweenD(3) [OF btw, of d] 0 by simp
    ultimately show ?thesis
      by (simp add: s1 switch_buffers_frame begin_exchange_edgeIn update_state_frame)
  qed
  show "subgrid s1 = newSubgrid (update_state c s)" and "newSubgrid s1 = subgrid s"
    using exchange_grids [OF ex]
    by (simp_all add: s1 switch_buffers_frame begin_exchange_frame update_state_frame)
  show "edgeOut s1 d = (if d \<in> set (neighbourList c me)
           then (edgeOut (update_state c s) d)[0 := mk_tag d t] else edgeOut (update_state c s) d)"
    using exchange_out [OF ex, of d]
    by (simp add: s1 switch_buffers_frame begin_exchange_frame)
  show "sent s1 = sent s @ map (\<lambda>d. (neighbour c me d, (edgeOut (update_state c s) d)[0 := mk_tag d t]))
           (neighbourList c me)"
    using exchange_sent [OF ex]
    by (simp add: s1 switch_buffers_frame begin_exchange_frame update_state_frame)
  show "map snd (received s1) @ messages r = map snd (received s) @ messages evs"
    using exchange_received(1) [OF ex] by (simp add: s1 switch_buffers_frame rb)
  show "\<exists>x. received s1 = received s @ x"
    using exchange_received(2) [OF ex] by (simp add: s1 switch_buffers_frame rb)
qed

lemma time_step_core:
  assumes run: "time_step c me t evs s = Inr (s1, r)"
    and run': "time_step c me t evs' s' = Inr (s1', r')"
    and same: "core s = core s'"
    and btw: "between c me t s" "between c me t s'"
    and skew: "bounded_skew c me (received s1)" "bounded_skew c me (received s1')"
    and agree: "\<And>d. d \<in> set (neighbourList c me) \<Longrightarrow> chan d s1 ! t = chan d s1' ! t"
  shows "core s1 = core s1'"
proof (rule core_eqI)
  note F = time_step_facts [OF run btw(1) skew(1)]
  note F' = time_step_facts [OF run' btw(2) skew(2)]
  note u = core_eqD [OF update_state_cong [OF same, of c]]
  note e = core_eqD [OF same]
  show "subgrid s1 = subgrid s1'" by (simp only: F(4) F'(4) u)
  show "newSubgrid s1 = newSubgrid s1'" by (simp only: F(5) F'(5) e)
  show "edgeOut s1 = edgeOut s1'"
    by (rule ext) (simp only: F(6) F'(6) u)
  show "sent s1 = sent s1'" by (simp only: F(7) F'(7) u e)
  show "edgeIn s1 = edgeIn s1'"
  proof
    fix d
    show "edgeIn s1 d = edgeIn s1' d"
    proof (cases "d \<in> set (neighbourList c me)")
      case True
      from F(2) [OF True] F'(2) [OF True] agree [OF True] show ?thesis by simp
    next
      case False
      from F(3) [OF False] F'(3) [OF False] e(4) show ?thesis by simp
    qed
  qed
qed

subsection \<open>The whole simulation\<close>

lemma time_step_received:
  assumes "time_step c me t evs s = Inr (s1, r)"
  shows "\<exists>x. received s1 = received s @ x"
    and "map snd (received s1) @ messages r = map snd (received s) @ messages evs"
proof -
  from assms obtain e where ex: "exchange c me t evs (begin_exchange (update_state c s)) = Inr (e, r)"
    and s1: "s1 = switch_buffers e"
    by (auto simp: time_step_def split: sum.splits)
  show "\<exists>x. received s1 = received s @ x"
    using exchange_received(2) [OF ex]
    by (simp add: s1 switch_buffers_frame begin_exchange_frame update_state_frame)
  show "map snd (received s1) @ messages r = map snd (received s) @ messages evs"
    using exchange_received(1) [OF ex]
    by (simp add: s1 switch_buffers_frame begin_exchange_frame update_state_frame)
qed

lemma simulation_step:
  assumes "simulation c me n t evs s = Inr (s1, r)" and "t < n"
  obtains sa ra where "time_step c me t evs s = Inr (sa, ra)"
    and "simulation c me n (t + 1) ra sa = Inr (s1, r)"
  using assms by (auto simp: simulation.simps [of c me n t] split: sum.splits)

lemma simulation_end:
  assumes "simulation c me n t evs s = Inr (s1, r)" and "\<not> t < n"
  shows "s1 = s" and "r = evs"
  using assms by (simp_all add: simulation.simps [of c me n t])

lemma simulation_received:
  assumes "simulation c me n t evs s = Inr (s1, r)"
  shows "\<exists>x. received s1 = received s @ x"
  using assms
proof (induction "n - t" arbitrary: t evs s)
  case 0
  then have "s1 = s" by (intro simulation_end(1) [of c me n t evs s s1 r]) simp_all
  then show ?case by simp
next
  case (Suc k)
  then have lt: "t < n" by simp
  from Suc.prems lt obtain sa ra where step: "time_step c me t evs s = Inr (sa, ra)"
    and rest: "simulation c me n (t + 1) ra sa = Inr (s1, r)"
    by (rule simulation_step)
  have "k = n - (t + 1)" using Suc.hyps(2) by simp
  from Suc.hyps(1) [OF this rest] obtain y where y: "received s1 = received sa @ y" ..
  from time_step_received(1) [OF step] obtain x where x: "received sa = received s @ x" ..
  have "received s1 = received s @ (x @ y)" by (simp add: x y)
  then show ?case ..
qed

lemma chan_filter: "chan d s = filter (\<lambda>m. msg_dir m = Some d) (map snd (received s))"
  by (simp add: chan_def from_dir_def filter_map comp_def)

lemma chan_of_all:
  assumes "map snd (received s) @ rest = all" and "k < rcvd d s"
  shows "chan d s ! k = filter (\<lambda>m. msg_dir m = Some d) all ! k"
proof -
  have "filter (\<lambda>m. msg_dir m = Some d) all = chan d s @ filter (\<lambda>m. msg_dir m = Some d) rest"
    unfolding assms(1) [symmetric] by (simp add: chan_filter)
  with assms(2) show ?thesis
    by (simp add: nth_append length_chan)
qed

lemma simulation_core:
  assumes "simulation c me n t evs s = Inr (s1, r)"
    and "simulation c me n t evs' s' = Inr (s1', r')"
    and "core s = core s'"
    and "between c me t s" and "between c me t s'"
    and "bounded_skew c me (received s1)" and "bounded_skew c me (received s1')"
    and "\<forall>d. filter (\<lambda>m. msg_dir m = Some d) (map snd (received s) @ messages evs)
           = filter (\<lambda>m. msg_dir m = Some d) (map snd (received s') @ messages evs')"
  shows "core s1 = core s1'"
  using assms
proof (induction "n - t" arbitrary: t evs s evs' s')
  case 0
  then have "\<not> t < n" by simp
  with "0.prems"(1,2) have "s1 = s" "s1' = s'"
    by (auto dest: simulation_end(1))
  with "0.prems"(3) show ?case by simp
next
  case (Suc k)
  then have lt: "t < n" by simp
  from Suc.prems(1) lt obtain sa ra where step: "time_step c me t evs s = Inr (sa, ra)"
    and rest: "simulation c me n (t + 1) ra sa = Inr (s1, r)"
    by (rule simulation_step)
  from Suc.prems(2) lt obtain sa' ra' where step': "time_step c me t evs' s' = Inr (sa', ra')"
    and rest': "simulation c me n (t + 1) ra' sa' = Inr (s1', r')"
    by (rule simulation_step)
  have k: "k = n - (t + 1)" using Suc.hyps(2) by simp
  from simulation_received [OF rest] obtain y where "received s1 = received sa @ y" ..
  with Suc.prems(6) have skew: "bounded_skew c me (received sa)"
    using bounded_skew_prefix [of c me "received sa" y] by simp
  from simulation_received [OF rest'] obtain y' where "received s1' = received sa' @ y'" ..
  with Suc.prems(7) have skew': "bounded_skew c me (received sa')"
    using bounded_skew_prefix [of c me "received sa'" y'] by simp
  note F = time_step_facts [OF step Suc.prems(4) skew]
  note F' = time_step_facts [OF step' Suc.prems(5) skew']
  have all: "filter (\<lambda>m. msg_dir m = Some d) (map snd (received sa) @ messages ra)
           = filter (\<lambda>m. msg_dir m = Some d) (map snd (received sa') @ messages ra')" for d
    unfolding F(8) F'(8) using Suc.prems(8) by blast
  have agree: "chan d sa ! t = chan d sa' ! t" if "d \<in> set (neighbourList c me)" for d
    using chan_of_all [OF refl, of t d sa "messages ra"] chan_of_all [OF refl, of t d sa' "messages ra'"]
      F(2) [OF that] F'(2) [OF that] all [of d]
    by simp
  have same: "core sa = core sa'"
    using step step' Suc.prems(3,4,5) skew skew' agree by (rule time_step_core)
  from all have all': "\<forall>d. filter (\<lambda>m. msg_dir m = Some d) (map snd (received sa) @ messages ra)
           = filter (\<lambda>m. msg_dir m = Some d) (map snd (received sa') @ messages ra')" ..
  show ?case
    using k rest rest' same F(1) F'(1) Suc.prems(6,7) all' by (rule Suc.hyps(1))
qed
text \<open>
  C6.  The protocol runs under its standing precondition: a neighbour is at most one step ahead
  of the thread, so the history of what a run has received respects the bounded skew.  Take two
  runs of \<open>n\<close> steps of a thread from the same state, started with an empty history and empty
  buffers, that both complete, on two lists of events in which the messages of each direction
  are the same and in the same order, whatever the order between directions and between sends
  and receives.  Then both runs end with the same subgrid, the same second grid, the same
  incoming and outgoing edges, and have sent the same messages.
\<close>

theorem order_independence:
  assumes "simulation c me n 0 evs1 s0 = Inr (s1, r1)"
    and "simulation c me n 0 evs2 s0 = Inr (s2, r2)"
    and "received s0 = []"
    and "\<forall>d. edgeInBuffer s0 d = None"
    and "bounded_skew c me (received s1)"
    and "bounded_skew c me (received s2)"
    and "\<forall>d. arrivals d evs1 = arrivals d evs2"
  shows "subgrid s1 = subgrid s2 \<and> newSubgrid s1 = newSubgrid s2
         \<and> edgeIn s1 = edgeIn s2 \<and> edgeOut s1 = edgeOut s2 \<and> sent s1 = sent s2"
proof -
  have btw: "between c me 0 s0"
    using assms(3,4) by (rule between_start)
  have all: "\<forall>d. filter (\<lambda>m. msg_dir m = Some d) (map snd (received s0) @ messages evs1)
           = filter (\<lambda>m. msg_dir m = Some d) (map snd (received s0) @ messages evs2)"
    using assms(7) by (simp add: arrivals_def assms(3))
  have "core s1 = core s2"
    using assms(1,2) refl btw btw assms(5,6) all by (rule simulation_core)
  then show ?thesis
    using core_eqD by blast
qed

theorem order_independence_witness:
  "subgrid (fst (projr (simulation cfg22 0 2 0 order_a corner)))
     = subgrid (fst (projr (simulation cfg22 0 2 0 order_c corner)))
   \<and> subgrid (fst (projr (simulation cfg22 0 2 0 order_a corner)))
     = [[10444800, 7311360, 5222400], [7311360, 2088960, 1044480], [5238784, 1060864, 16384]]
   \<and> received (fst (projr (simulation cfg22 0 2 0 order_a corner)))
     \<noteq> received (fst (projr (simulation cfg22 0 2 0 order_c corner)))"
proof -
  let ?a = "simulation cfg22 0 2 0 order_a corner"
  let ?c = "simulation cfg22 0 2 0 order_c corner"
  have "\<not> isl ?a" and "\<not> isl ?c" by code_simp+
  then have 1: "?a = Inr (fst (projr ?a), snd (projr ?a))"
    and 2: "?c = Inr (fst (projr ?c), snd (projr ?c))"
    by (simp_all add: sum.collapse(2))
  have 3: "received corner = []" by code_simp
  have 4: "\<forall>d. edgeInBuffer corner d = None"
    by (simp add: corner_def initial_def Let_def)
  have 5: "bounded_skew cfg22 0 (received (fst (projr ?a)))" by code_simp
  have 6: "bounded_skew cfg22 0 (received (fst (projr ?c)))" by code_simp
  have 7: "\<forall>d. arrivals d order_a = arrivals d order_c"
  proof
    have "arrivals N order_a = arrivals N order_c" "arrivals S order_a = arrivals S order_c"
      "arrivals E order_a = arrivals E order_c" "arrivals W order_a = arrivals W order_c"
      by code_simp+
    then show "arrivals d order_a = arrivals d order_c" for d
      by (cases d) simp_all
  qed
  have 8: "subgrid (fst (projr ?a))
     = [[10444800, 7311360, 5222400], [7311360, 2088960, 1044480], [5238784, 1060864, 16384]]"
    by code_simp
  have 9: "received (fst (projr ?a)) \<noteq> received (fst (projr ?c))" by code_simp
  from order_independence [OF 1 2 3 4 5 6 7]
  have "subgrid (fst (projr ?a)) = subgrid (fst (projr ?c))" by (rule conjunct1)
  with 8 9 show ?thesis by simp
qed

section \<open>The result of a run\<close>

subsection \<open>The simulation loop\<close>

lemma time_step_newSubgrid:
  assumes "time_step c me t evs s = Inr (s', rest)"
  shows "newSubgrid s' = subgrid s"
proof -
  from assms obtain s1 where ex: "exchange c me t evs (begin_exchange (update_state c s)) = Inr (s1, rest)"
    and s': "s' = switch_buffers s1"
    by (auto simp: time_step_def split: sum.splits)
  from exchange_grids [OF ex] show ?thesis
    by (simp add: s' switch_buffers_def begin_exchange_frame update_state_frame)
qed

lemma simulation_preserves:
  assumes step: "\<And>t evs s s' r. P s \<Longrightarrow> time_step c me t evs s = Inr (s', r) \<Longrightarrow> P s'"
    and "P s" and "simulation c me n t evs s = Inr (s', r)"
  shows "P s'"
  using assms(2,3)
proof (induction "n - t" arbitrary: t evs s)
  case 0
  then have "\<not> t < n" by simp
  from simulation_end(1) [OF "0.prems"(2) this] "0.prems"(1) show ?case by simp
next
  case (Suc k)
  then have tn: "t < n" by simp
  from Suc.prems(2) tn obtain sa ra where ts: "time_step c me t evs s = Inr (sa, ra)"
    and run: "simulation c me n (t + 1) ra sa = Inr (s', r)"
    by (rule simulation_step)
  have "k = n - (t + 1)" using Suc.hyps(2) by simp
  from Suc.hyps(1) [OF this step [OF Suc.prems(1) ts] run] show ?case .
qed

lemma simulation_split:
  assumes "simulation c me k t evs s = Inr (s', r)" and "t \<le> k" and "k \<le> n"
  shows "simulation c me n t evs s = simulation c me n k r s'"
  using assms(1,2)
proof (induction "k - t" arbitrary: t evs s)
  case 0
  then have "\<not> t < k" and "t = k" by simp_all
  with simulation_end [OF "0.prems"(1)] show ?case by simp
next
  case (Suc j)
  then have tk: "t < k" by simp
  with \<open>k \<le> n\<close> have tn: "t < n" by simp
  from Suc.prems(1) tk obtain sa ra where ts: "time_step c me t evs s = Inr (sa, ra)"
    and run: "simulation c me k (t + 1) ra sa = Inr (s', r)"
    by (rule simulation_step)
  have "j = k - (t + 1)" using Suc.hyps(2) by simp
  moreover have "t + 1 \<le> k" using tk by simp
  ultimately have "simulation c me n (t + 1) ra sa = simulation c me n k r s'"
    using run by (intro Suc.hyps(1))
  with ts tn show ?case
    by (simp add: simulation.simps [of c me n t])
qed

lemma simulation_last:
  assumes "simulation c me (Suc n) 0 evs s = Inr (s', r)"
  shows "\<exists>sp rp. simulation c me n 0 evs s = Inr (sp, rp) \<and> time_step c me n rp sp = Inr (s', r)"
proof (cases "simulation c me n 0 evs s")
  case (Inl f)
  have "simulation c me (Suc n) t evs s = Inl f" if "simulation c me n t evs s = Inl f" and "t \<le> n"
    for t evs s
    using that
  proof (induction "n - t" arbitrary: t evs s)
    case 0
    then have "t = n" by simp
    with "0.prems"(1) show ?case by (simp add: simulation.simps [of c me n n])
  next
    case (Suc j)
    then have tn: "t < n" by simp
    show ?case
    proof (cases "time_step c me t evs s")
      case (Inl g)
      with Suc.prems(1) tn show ?thesis
        by (simp add: simulation.simps [of c me n t] simulation.simps [of c me "Suc n" t])
    next
      case (Inr p)
      obtain sa ra where p: "p = (sa, ra)" by (cases p)
      have "j = n - (t + 1)" using Suc.hyps(2) by simp
      moreover have "simulation c me n (t + 1) ra sa = Inl f"
        using Suc.prems(1) tn Inr p by (simp add: simulation.simps [of c me n t])
      moreover have "t + 1 \<le> n" using tn by simp
      ultimately have "simulation c me (Suc n) (t + 1) ra sa = Inl f"
        by (intro Suc.hyps(1))
      with Inr p tn show ?thesis
        by (simp add: simulation.simps [of c me "Suc n" t])
    qed
  qed
  from this [OF Inl] assms show ?thesis by simp
next
  case (Inr p)
  obtain sp rp where p: "simulation c me n 0 evs s = Inr (sp, rp)"
    using Inr by (cases p) simp
  from simulation_split [OF p, of "Suc n"]
  have "simulation c me (Suc n) n rp sp = Inr (s', r)"
    using assms by simp
  then have "time_step c me n rp sp = Inr (s', r)"
    by (simp add: simulation.simps [of c me "Suc n" n] simulation.simps [of c me "Suc n" "Suc n"]
          split: sum.splits)
  with p show ?thesis by blast
qed

lemma initial_grids:
  "subgrid (initial c me slot space) = replicate (L c) (replicate (L c) 0)"
  "newSubgrid (initial c me slot space) = space"
  by (simp_all add: initial_def Let_def)

lemma grid_ok_zero: "grid_ok c (replicate (L c) (replicate (L c) 0))"
  by (simp add: grid_ok_def list_all_length)

lemma simulation_grid_ok:
  assumes "simulation c me n t evs s = Inr (s', r)"
    and "grid_ok c (subgrid s) \<and> grid_ok c (newSubgrid s)"
  shows "grid_ok c (subgrid s') \<and> grid_ok c (newSubgrid s')"
proof (rule simulation_preserves [where P = "\<lambda>s. grid_ok c (subgrid s) \<and> grid_ok c (newSubgrid s)", OF _ assms(2,1)])
  fix t evs s s' r
  assume "grid_ok c (subgrid s) \<and> grid_ok c (newSubgrid s)" and "time_step c me t evs s = Inr (s', r)"
  then show "grid_ok c (subgrid s') \<and> grid_ok c (newSubgrid s')"
    by (simp add: time_step_subgrid time_step_newSubgrid update_state_grid_ok)
qed

subsection \<open>A thread without neighbours\<close>

lemma exchange_alone:
  assumes "neighbourList c me = []"
  shows "exchange c me t evs s = Inr (s, evs)"
  using assms by (cases evs) (simp_all add: needToSend_def needToRecv_def numNeighbours_def)

lemma time_step_alone:
  assumes "neighbourList c me = []"
  shows "time_step c me t evs s = Inr (switch_buffers (begin_exchange (update_state c s)), evs)"
  by (simp add: time_step_def exchange_alone [OF assms])

lemma simulation_alone:
  assumes nb: "neighbourList c me = []"
    and step: "\<And>s. P s \<Longrightarrow> P (switch_buffers (begin_exchange (update_state c s)))"
    and "P s"
  shows "\<exists>s'. simulation c me n t evs s = Inr (s', evs) \<and> P s'"
  using assms(3)
proof (induction "n - t" arbitrary: t s)
  case 0
  then show ?case by (simp add: simulation.simps [of c me n t])
next
  case (Suc k)
  then have tn: "t < n" by simp
  have "k = n - (t + 1)" using Suc.hyps(2) by simp
  from Suc.hyps(1) [OF this step [OF Suc.prems]]
  obtain s' where "simulation c me n (t + 1) evs (switch_buffers (begin_exchange (update_state c s))) = Inr (s', evs)"
    and "P s'" by blast
  with tn show ?case
    by (simp add: simulation.simps [of c me n t] time_step_alone [OF nb])
qed

lemma grid_eqI:
  assumes "grid_ok c g" and "grid_ok c h"
    and "\<And>y x. y < L c \<Longrightarrow> x < L c \<Longrightarrow> g ! y ! x = h ! y ! x"
  shows "g = h"
proof (rule nth_equalityI)
  show "length g = length h"
    using assms(1,2) by (simp add: grid_okD)
  show "g ! y = h ! y" if "y < length g" for y
  proof (rule nth_equalityI)
    from that have y: "y < L c" using assms(1) by (simp add: grid_okD)
    then show "length (g ! y) = length (h ! y)"
      using assms(1,2) by (simp add: grid_okD)
    show "g ! y ! x = h ! y ! x" if "x < length (g ! y)" for x
      using that y assms(1,3) by (simp add: grid_okD)
  qed
qed

lemma step_alone:
  "subgrid (switch_buffers (begin_exchange (update_state c s))) = newSubgrid (update_state c s)"
  "newSubgrid (switch_buffers (begin_exchange (update_state c s))) = subgrid s"
  "sent (switch_buffers (begin_exchange (update_state c s))) = sent s"
  "edgeInBuffer (switch_buffers (begin_exchange (update_state c s))) d = None"
  "edgeIn (switch_buffers (begin_exchange (update_state c s))) d
     = (case edgeInBuffer s d of None \<Rightarrow> edgeIn s d | Some m \<Rightarrow> m)"
  by (simp_all add: switch_buffers_def begin_exchange_frame begin_exchange_buffer
        begin_exchange_edgeIn update_state_frame split: option.splits)

subsection \<open>A board of one thread\<close>

lemma single_alone: "neighbourList single 0 = []"
  by code_simp

lemma steady_fixed:
  assumes "y < L single" and "x < L single"
  shows "surroundings single (edgeIn alone) steady y x = steady ! y ! x"
proof -
  have "list_all (\<lambda>y. list_all (\<lambda>x. surroundings single (edgeIn alone) steady y x = steady ! y ! x)
          [0..<L single]) [0..<L single]"
    by code_simp
  with assms show ?thesis
    by (simp add: list_all_iff)
qed

lemma alone_settles: "subgrid (fst (projr (simulation single 0 50 0 [] alone))) = steady"
  by code_simp

lemma alone_run:
  "\<exists>s. simulation single 0 1000 0 [] alone = Inr (s, []) \<and> subgrid s = steady \<and> sent s = []"
proof -
  define Q where "Q s \<longleftrightarrow> grid_ok single (subgrid s) \<and> grid_ok single (newSubgrid s)
      \<and> (\<forall>d. edgeInBuffer s d = None) \<and> edgeIn s = edgeIn alone \<and> sent s = []" for s :: state
  define P where "P s \<longleftrightarrow> Q s \<and> subgrid s = steady" for s :: state
  have ok: "grid_ok single steady" by code_simp
  have Q0: "Q alone"
  proof -
    have "grid_ok single (subgrid alone)" "grid_ok single (newSubgrid alone)" "sent alone = []"
      by code_simp+
    moreover have "\<forall>d. edgeInBuffer alone d = None"
      by (simp add: alone_def initial_def Let_def)
    ultimately show ?thesis by (simp add: Q_def)
  qed
  have Qstep: "Q (switch_buffers (begin_exchange (update_state single s)))" if "Q s" for s
  proof -
    have "edgeIn (switch_buffers (begin_exchange (update_state single s))) d = edgeIn alone d" for d
      using that by (simp add: step_alone Q_def)
    then have "edgeIn (switch_buffers (begin_exchange (update_state single s))) = edgeIn alone"
      by (rule ext)
    with that show ?thesis
      by (simp add: Q_def step_alone update_state_grid_ok)
  qed
  have Pstep: "P (switch_buffers (begin_exchange (update_state single s)))" if "P s" for s
  proof -
    from that have q: "Q s" and g: "subgrid s = steady" by (simp_all add: P_def)
    from q have n: "grid_ok single (newSubgrid s)" and e: "edgeIn s = edgeIn alone"
      by (simp_all add: Q_def)
    have "newSubgrid (update_state single s) = steady"
    proof (rule grid_eqI [OF update_state_grid_ok [OF n] ok])
      fix y x assume "y < L single" and "x < L single"
      then show "newSubgrid (update_state single s) ! y ! x = steady ! y ! x"
        using n by (simp add: update_state_new newTemp_surroundings e g steady_fixed)
    qed
    with Qstep [OF q] show ?thesis
      by (simp add: P_def step_alone)
  qed
  from simulation_alone [of single 0 Q, OF single_alone Qstep Q0, of 50 0 "[]"]
  obtain s1 where s1: "simulation single 0 50 0 [] alone = Inr (s1, [])" and "Q s1"
    by blast
  moreover from s1 alone_settles have "subgrid s1 = steady" by simp
  ultimately have "P s1" by (simp add: P_def)
  with simulation_alone [of single 0 P, OF single_alone Pstep, of s1 1000 50 "[]"]
  obtain s where "simulation single 0 1000 50 [] s1 = Inr (s, [])" and "P s"
    by blast
  moreover have "simulation single 0 1000 0 [] alone = simulation single 0 1000 50 [] s1"
    using s1 by (rule simulation_split) simp_all
  ultimately show ?thesis
    by (auto simp: P_def Q_def)
qed

subsection \<open>The words put to the host\<close>

text \<open>
  C8.  When the simulation loop of \<^verbatim>\<open>main\<close> completes its 1000 steps, \<^verbatim>\<open>main\<close> returns the
  words emitted for the current subgrid of the state the loop ends in.  That subgrid is the
  grid written by the update of the last step, step 999, and it has \<open>L\<close> rows of \<open>L\<close> cells.
  The words are, row after row and within a row column after column, one word per cell: the
  word for cell \<open>(i, j)\<close> is at position \<open>i * L + j\<close> and equals
  \<open>((row << 12) | col) << 8 | temp\<close> with \<open>row = y + i\<close>, \<open>col = x + j\<close> and \<open>temp\<close> the low 8 bits
  of the integer part (bits 16 to 23) of the cell's temperature.
\<close>

theorem result_emission:
  assumes "simulation c me 1000 0 evs (initial c me slot space) = Inr (s, rest)"
    and "grid_ok c space"
  shows "main c me slot space evs = Inr (sent s, emit c me (subgrid s))
     \<and> (\<exists>sp rp. simulation c me 999 0 evs (initial c me slot space) = Inr (sp, rp)
           \<and> time_step c me 999 rp sp = Inr (s, rest)
           \<and> subgrid s = newSubgrid (update_state c sp))
     \<and> grid_ok c (subgrid s)
     \<and> emit c me (subgrid s)
         = concat (map (\<lambda>i. map (\<lambda>j. host_word c me (subgrid s) i j) [0..<L c]) [0..<L c])
     \<and> length (emit c me (subgrid s)) = L c * L c
     \<and> (i < L c \<and> j < L c \<longrightarrow> emit c me (subgrid s) ! (i * L c + j) = host_word c me (subgrid s) i j)
     \<and> host_word c me (subgrid s) i j =
          push_bit 8 (push_bit 12 (yBase c me + of_nat i) OR (xBase c me + of_nat j))
            OR take_bit 8 (drop_bit 16 (subgrid s ! i ! j))"
proof (intro conjI impI)
  show "main c me slot space evs = Inr (sent s, emit c me (subgrid s))"
    using assms(1) by (rule main_emits)
  have "simulation c me (Suc 999) 0 evs (initial c me slot space) = Inr (s, rest)"
    using assms(1) by simp
  then obtain sp rp where "simulation c me 999 0 evs (initial c me slot space) = Inr (sp, rp)"
    and "time_step c me 999 rp sp = Inr (s, rest)"
    using simulation_last by blast
  moreover from this(2) have "subgrid s = newSubgrid (update_state c sp)"
    by (rule time_step_subgrid)
  ultimately show "\<exists>sp rp. simulation c me 999 0 evs (initial c me slot space) = Inr (sp, rp)
           \<and> time_step c me 999 rp sp = Inr (s, rest)
           \<and> subgrid s = newSubgrid (update_state c sp)"
    by blast
  have "grid_ok c (subgrid (initial c me slot space)) \<and> grid_ok c (newSubgrid (initial c me slot space))"
    using assms(2) by (simp add: initial_grids grid_ok_zero)
  with assms(1) show "grid_ok c (subgrid s)"
    using simulation_grid_ok by blast
  show "emit c me (subgrid s)
         = concat (map (\<lambda>i. map (\<lambda>j. host_word c me (subgrid s) i j) [0..<L c]) [0..<L c])"
    by (rule emit_concat)
  show "length (emit c me (subgrid s)) = L c * L c"
    by (simp only: emit_concat length_concat_rows)
  show "emit c me (subgrid s) ! (i * L c + j) = host_word c me (subgrid s) i j" if "i < L c \<and> j < L c"
    using that by (simp only: emit_concat nth_concat_rows)
  show "host_word c me (subgrid s) i j =
        push_bit 8 (push_bit 12 (yBase c me + of_nat i) OR (xBase c me + of_nat j))
          OR take_bit 8 (drop_bit 16 (subgrid s ! i ! j))"
    by (simp only: host_word_def Let_def integer_part_byte)
qed

theorem result_emission_witness:
  "main single 0 (\<lambda>i. replicate 4 0) (replicate 3 (replicate 3 0)) []
     = Inr ([], [224, 449, 659, 1048769, 1048979, 1049189, 2097299, 2097509, 2097734])
   \<and> grid_ok single steady
   \<and> length (emit single 0 steady) = 9
   \<and> emit single 0 steady ! (1 * 3 + 2) = 1049189"
proof -
  let ?s = "fst (projr (simulation single 0 1000 0 [] alone))"
  from alone_run have run: "simulation single 0 1000 0 [] alone = Inr (?s, [])"
    and g: "subgrid ?s = steady" and m: "sent ?s = []"
    by auto
  have 1: "simulation single 0 1000 0 []
             (initial single 0 (\<lambda>i. replicate 4 0) (replicate 3 (replicate 3 0))) = Inr (?s, [])"
    using run by (simp only: alone_def)
  have 2: "grid_ok single (replicate 3 (replicate 3 0))" by code_simp
  have 3: "(1::nat) < L single \<and> (2::nat) < L single" by code_simp
  have 4: "L single = 3" by code_simp
  have 5: "emit single 0 steady = [224, 449, 659, 1048769, 1048979, 1049189, 2097299, 2097509, 2097734]"
    by code_simp
  have 6: "host_word single 0 steady 1 2 = 1049189" by code_simp
  note r = result_emission [OF 1 2, of 1 2]
  from r have a: "main single 0 (\<lambda>i. replicate 4 0) (replicate 3 (replicate 3 0)) []
      = Inr (sent ?s, emit single 0 (subgrid ?s))"
    by (rule conjunct1)
  from r have b: "grid_ok single (subgrid ?s)"
    and c: "length (emit single 0 (subgrid ?s)) = L single * L single"
    and imp: "(1::nat) < L single \<and> (2::nat) < L single \<longrightarrow>
      emit single 0 (subgrid ?s) ! (1 * L single + 2) = host_word single 0 (subgrid ?s) 1 2"
    by blast+
  from imp 3 have d: "emit single 0 (subgrid ?s) ! (1 * L single + 2) = host_word single 0 (subgrid ?s) 1 2"
    by (rule mp)
  from a b c d show ?thesis
    unfolding g m 4 5 6 by simp
qed

end
